theory Spec2Isabelle
  imports Complex_Main "HOL-Library.Word"
begin

unbundle bit_operations_syntax

section \<open>The AiNed device handle\<close>

text \<open>
  The handle of \<^verbatim>\<open>ained.c\<close> (\<^verbatim>\<open>struct ained\<close>) together with the two device windows it
  points to. All coordinates and counters are \<^verbatim>\<open>uint32_t\<close>, memory words are
  \<^verbatim>\<open>uint64_t\<close>. Every function below takes the handle and returns it updated; the
  \<^verbatim>\<open>handle == NULL\<close> early returns of the C functions have no counterpart, a handle value
  being always present.
\<close>

type_synonym u8 = "8 word"
type_synonym u32 = "32 word"
type_synonym u64 = "64 word"

text \<open>
  The three diagnostics the library prints on \<^verbatim>\<open>stderr\<close>:
  "Cannot set bit in more then one word in a single commit." (\<open>CrossWordConflict\<close>),
  "Nothing to commit." (\<open>NothingToCommit\<close>) and the two index messages
  "Only %u dipoles in the system, requested %u." / "Only 12 coefficients to set."
  (\<open>OutOfRangeIndex\<close>).
\<close>

datatype diag = CrossWordConflict | NothingToCommit | OutOfRangeIndex

text \<open>
  \<^item> \<open>memory\<close>: the memory window, by 64-bit word offset; the grid is offsets 0..127
    (\<^verbatim>\<open>num_words\<close>) of the 512 words the window maps (\<^verbatim>\<open>memory_addr_len = 1 << 12\<close>
    bytes).
  \<^item> \<open>reg_mask\<close>: \<^verbatim>\<open>registers[AINED_REG_MASK_64BIT]\<close>, the 64-bit write mask.
  \<^item> \<open>regs\<close>: the register window in its 32-bit view, for the offsets the library
    reaches through that view: the coefficient groups 2..13, the bypass register 14 and
    the dipole block from \<^verbatim>\<open>0x400\<close> on.
  \<^item> \<open>index\<close>: the \<^verbatim>\<open>int32_t\<close> field, kept as its bit pattern; \<open>sint\<close> reads its sign.
  \<^item> \<open>mask_h\<close>, \<open>value_h\<close>: the fields \<^verbatim>\<open>mask\<close> and \<^verbatim>\<open>value\<close>.
  \<^item> \<open>stderr_log\<close>: the diagnostics printed so far.
\<close>

record ained =
  memory :: "nat \<Rightarrow> u64"
  reg_mask :: u64
  regs :: "nat \<Rightarrow> u32"
  num_dipoles :: u32
  index :: u32
  mask_h :: u64
  value_h :: u64
  stderr_log :: "diag list"

definition AINED_REG_COEFF_0 :: u32 where "AINED_REG_COEFF_0 = 2"
definition AINED_REG_COEFF_6 :: u32 where "AINED_REG_COEFF_6 = 8"
definition AINED_REG_BYPASS :: u32 where "AINED_REG_BYPASS = 14"
definition AINED_REG_DIPOLE_OFFSET :: u32 where "AINED_REG_DIPOLE_OFFSET = 1024"
definition AINED_REG_DIPOLE_NUM_REG_PD :: u32 where "AINED_REG_DIPOLE_NUM_REG_PD = 4"
definition bsize :: u32 where "bsize = 8"
definition num_words :: nat where "num_words = 128"

text \<open>
  A store into the memory window. The device applies the write mask (\<^verbatim>\<open>ained.h\<close>, at
  \<^verbatim>\<open>ained_set_mask\<close>: "only the masked bits are written in the word", for a direct write as
  for a commit): the bits selected by \<open>reg_mask\<close> take the stored value, the others keep
  what the word held.
\<close>

definition mem_write :: "nat \<Rightarrow> u64 \<Rightarrow> ained \<Rightarrow> ained" where
  "mem_write i w h =
     h\<lparr>memory := (memory h)(i := (memory h i AND NOT (reg_mask h)) OR (w AND reg_mask h))\<rparr>"

definition fprintf_stderr :: "diag \<Rightarrow> ained \<Rightarrow> ained" where
  "fprintf_stderr d h = h\<lparr>stderr_log := stderr_log h @ [d]\<rparr>"

subsection \<open>BitGrid addressing\<close>

definition ained_get_index :: "u32 \<Rightarrow> u32 \<Rightarrow> u32" where
  "ained_get_index rows columns =
     (let y = rows div bsize; x = columns div bsize in y * 8 + x)"

definition ained_get_word_index :: "u32 \<Rightarrow> u32 \<Rightarrow> u32" where
  "ained_get_word_index rows columns =
     (let r = rows mod bsize; c = columns mod bsize in r * 8 + c)"

subsection \<open>Transaction buffer\<close>

definition ained_set_bit :: "ained \<Rightarrow> u32 \<Rightarrow> u32 \<Rightarrow> u32 \<Rightarrow> ained" where
  "ained_set_bit h row column v =
     (let idx = ained_get_index row column;
          id = ained_get_word_index row column
      in if 0 \<le> sint (index h) \<and> idx \<noteq> index h
         then fprintf_stderr CrossWordConflict h
         else if v \<noteq> 0
           then h\<lparr>index := idx,
                  mask_h := mask_h h OR push_bit (unat id) 1,
                  value_h := value_h h OR push_bit (unat id) 1\<rparr>
           else h\<lparr>index := idx,
                  mask_h := mask_h h OR push_bit (unat id) 1,
                  value_h := value_h h AND NOT (push_bit (unat id) 1)\<rparr>)"

definition ained_commit :: "ained \<Rightarrow> ained" where
  "ained_commit h =
     (if sint (index h) < 0 then fprintf_stderr NothingToCommit h
      else
        let h1 = h\<lparr>reg_mask := mask_h h\<rparr>;
            h2 = mem_write (unat (index h1)) (value_h h1) h1
        in h2\<lparr>index := - 1, mask_h := 0, value_h := 0\<rparr>)"

subsection \<open>Bypass mode\<close>

definition ained_set_bypass :: "ained \<Rightarrow> bool \<Rightarrow> ained" where
  "ained_set_bypass h enable =
     (let h1 = h\<lparr>regs := (regs h)(unat AINED_REG_BYPASS := (if enable then 1 else 0))\<rparr>
      in if enable then h1\<lparr>reg_mask := - 1\<rparr> else h1\<lparr>reg_mask := 0\<rparr>)"

definition ained_clear_memory :: "ained \<Rightarrow> ained" where
  "ained_clear_memory h =
     (let h1 = ained_set_bypass h True;
          h2 = fold (\<lambda>j. mem_write j 0) [0..<num_words] h1
      in ained_set_bypass h2 False)"

subsection \<open>Single bits\<close>

definition ained_get_bit :: "ained \<Rightarrow> u32 \<Rightarrow> u32 \<Rightarrow> u32" where
  "ained_get_bit h row col =
     (let of' = ained_get_index row col;
          id = ained_get_word_index row col;
          v = memory h (unat of')
      in if v AND push_bit (unat id) 1 \<noteq> 0 then 1 else 0)"

definition ained_flip_isolated_bit :: "ained \<Rightarrow> u32 \<Rightarrow> u32 \<Rightarrow> ained" where
  "ained_flip_isolated_bit h row col =
     (let word_index = ained_get_index row col;
          bit_index = ained_get_word_index row col
      in mem_write (unat word_index)
           (memory h (unat word_index) XOR push_bit (unat bit_index) 1) h)"

subsection \<open>Lights Out\<close>

text \<open>
  \<^verbatim>\<open>ained_get_board\<close>: a zeroed array of \<^verbatim>\<open>num_row * num_col\<close> cells, filled by the two
  nested loops at offset \<^verbatim>\<open>num_col * row + col\<close>.
\<close>

definition ained_get_board :: "ained \<Rightarrow> u32 \<Rightarrow> u32 \<Rightarrow> u32 \<Rightarrow> u32 \<Rightarrow> u32 list" where
  "ained_get_board h start_row start_col num_row num_col =
     fold (\<lambda>row. fold (\<lambda>col board.
               board[unat (num_col * row + col) :=
                       ained_get_bit h (start_row + row) (start_col + col)])
             (map of_nat [0..<unat num_col]))
       (map of_nat [0..<unat num_row])
       (replicate (unat (num_row * num_col)) 0)"

text \<open>
  \<^verbatim>\<open>ained_flip_lights\<close>, statement by statement. The \<^verbatim>\<open>fflush\<close>, the read
  \<^verbatim>\<open>ained_get_bit(handle, 0, 0)\<close> whose result is dropped and the \<^verbatim>\<open>free\<close> of the snapshot
  leave the handle as it is. The loop counter \<^verbatim>\<open>i\<close> is a \<^verbatim>\<open>size_t\<close>; the coordinates
  \<^verbatim>\<open>start_row + i / num_col\<close> and \<^verbatim>\<open>start_col + i % num_col\<close> are cut to 32 bits when passed.
\<close>

definition ained_flip_lights ::
  "ained \<Rightarrow> u32 \<Rightarrow> u32 \<Rightarrow> u32 \<Rightarrow> u32 \<Rightarrow> u32 \<Rightarrow> u32 \<Rightarrow> ained" where
  "ained_flip_lights h start_row start_col num_row num_col row col =
     (if row < start_row \<or> row > start_row + num_row - 1 \<or>
         col < start_col \<or> col > start_col + num_col - 1
      then h
      else
        let old_board = ained_get_board h start_row start_col num_row num_col;
            h1 = ained_clear_memory h;
            h2 = ained_set_bit h1 (start_row + row) (start_col + col) 1;
            h3 = ained_commit h2;
            h4 = ained_set_bypass h3 True;
            h5 = fold (\<lambda>i g. if old_board ! i = 1
                         then ained_flip_isolated_bit g
                                (start_row + of_nat (i div unat num_col))
                                (start_col + of_nat (i mod unat num_col))
                         else g)
                   [0..<unat (num_row * num_col)] h4;
            h6 = (if row > 0
                  then ained_flip_isolated_bit h5 (start_row + row - 1) (start_col + col)
                  else h5);
            h7 = (if row < num_row - 1
                  then ained_flip_isolated_bit h6 (start_row + row + 1) (start_col + col)
                  else h6);
            h8 = (if col > 0
                  then ained_flip_isolated_bit h7 (start_row + row) (start_col + col - 1)
                  else h7);
            h9 = (if col < num_col - 1
                  then ained_flip_isolated_bit h8 (start_row + row) (start_col + col + 1)
                  else h8)
        in ained_set_bypass h9 False)"

subsection \<open>Dipole and coefficient registers\<close>

text \<open>
  \<^verbatim>\<open>ained_get_dipole_rng\<close> returns the current random value and stores the three seeds
  through \<^verbatim>\<open>s0\<close>, \<^verbatim>\<open>s1\<close>, \<^verbatim>\<open>s2\<close> where these are not \<^verbatim>\<open>NULL\<close>. An out-parameter is
  modelled by what it points to: \<open>None\<close> for \<^verbatim>\<open>NULL\<close>, \<open>Some x\<close> for a cell holding \<open>x\<close>;
  the function returns the cells as it leaves them.
\<close>

definition dipole_reg :: "u32 \<Rightarrow> u32 \<Rightarrow> nat" where
  "dipole_reg dipole k =
     unat (AINED_REG_DIPOLE_OFFSET + dipole * AINED_REG_DIPOLE_NUM_REG_PD + k)"

definition ained_get_dipole_rng ::
  "ained \<Rightarrow> u32 \<Rightarrow> u32 option \<Rightarrow> u32 option \<Rightarrow> u32 option \<Rightarrow>
   u32 \<times> u32 option \<times> u32 option \<times> u32 option \<times> ained" where
  "ained_get_dipole_rng h dipole s0 s1 s2 =
     (if dipole > num_dipoles h
      then (0, s0, s1, s2, fprintf_stderr OutOfRangeIndex h)
      else (regs h (dipole_reg dipole 0),
            (if s0 \<noteq> None then Some (regs h (dipole_reg dipole 1)) else s0),
            (if s1 \<noteq> None then Some (regs h (dipole_reg dipole 2)) else s1),
            (if s2 \<noteq> None then Some (regs h (dipole_reg dipole 3)) else s2),
            h))"

definition ained_set_dipole_rng :: "ained \<Rightarrow> u32 \<Rightarrow> u32 \<Rightarrow> u32 \<Rightarrow> u32 \<Rightarrow> ained" where
  "ained_set_dipole_rng h dipole s0 s1 s2 =
     (if dipole > num_dipoles h
      then fprintf_stderr OutOfRangeIndex h
      else h\<lparr>regs := (regs h)(dipole_reg dipole 1 := s0,
                               dipole_reg dipole 2 := s1,
                               dipole_reg dipole 3 := s2)\<rparr>)"

definition ained_set_coefficients :: "ained \<Rightarrow> u32 \<Rightarrow> u32 \<Rightarrow> ained" where
  "ained_set_coefficients h idx v =
     (if idx > 11
      then fprintf_stderr OutOfRangeIndex h
      else h\<lparr>regs := (regs h)(unat (AINED_REG_COEFF_0 + idx) := v)\<rparr>)"

definition ained_get_coefficients :: "ained \<Rightarrow> u32 \<Rightarrow> u32 \<times> ained" where
  "ained_get_coefficients h idx =
     (if idx > 11
      then (0, fprintf_stderr OutOfRangeIndex h)
      else (regs h (unat (AINED_REG_COEFF_0 + idx)), h))"

subsection \<open>Coefficient kernels\<close>

text \<open>
  The kernel generators compute in \<^verbatim>\<open>double\<close>; they are modelled over the reals, for a
  positive \<^verbatim>\<open>factor\<close>. \<^verbatim>\<open>round\<close> rounds halves away from zero, and the conversion of the
  clamped value to \<^verbatim>\<open>uint8_t\<close> drops the fraction.
\<close>

datatype ained_coeff_t = AINED_COEFF_HIGH | AINED_COEFF_LOW

definition c_round :: "real \<Rightarrow> real" where
  "c_round x = (if 0 \<le> x then of_int \<lfloor>x + 1 / 2\<rfloor> else - of_int \<lfloor>- x + 1 / 2\<rfloor>)"

definition coeff_byte :: "real \<Rightarrow> u32 \<Rightarrow> real \<Rightarrow> u8" where
  "coeff_byte factor reach distance =
     (let f = (if distance > 0 \<and> distance \<le> real (unat reach)
               then factor powr distance else 0)
      in of_int \<lfloor>min (c_round (f * 256)) 255\<rfloor>)"

text \<open>
  \<^verbatim>\<open>struct coeffs\<close> is 24 bytes laid over six 32-bit registers; the lowest byte of a
  register is the first of its four fields (the ARM core is little-endian).
\<close>

definition pack4 :: "u8 \<Rightarrow> u8 \<Rightarrow> u8 \<Rightarrow> u8 \<Rightarrow> u32" where
  "pack4 b0 b1 b2 b3 =
     ucast b0 OR push_bit 8 (ucast b1) OR push_bit 16 (ucast b2) OR push_bit 24 (ucast b3)"

definition store_coeffs :: "ained \<Rightarrow> u32 \<Rightarrow> u8 list \<Rightarrow> ained" where
  "store_coeffs h base cfs =
     h\<lparr>regs := fold (\<lambda>k rg. rg(unat base + k :=
                        pack4 (cfs ! (4 * k)) (cfs ! (4 * k + 1))
                              (cfs ! (4 * k + 2)) (cfs ! (4 * k + 3))))
                 [0..<6] (regs h)\<rparr>"

definition load_coeffs :: "ained \<Rightarrow> u32 \<Rightarrow> u8 list" where
  "load_coeffs h base =
     map (\<lambda>i. ucast (drop_bit (8 * (i mod 4)) (regs h (unat base + i div 4)))) [0..<24]"

definition coeff_base :: "ained_coeff_t \<Rightarrow> u32" where
  "coeff_base co_index =
     (if co_index = AINED_COEFF_HIGH then AINED_REG_COEFF_0 else AINED_REG_COEFF_6)"

text \<open>
  The local array \<^verbatim>\<open>cfs\<close> starts out indeterminate; \<open>cfs0\<close> is what it happens to hold.
\<close>

definition ained_set_coefficients_euclidean ::
  "u8 list \<Rightarrow> ained \<Rightarrow> real \<Rightarrow> u32 \<Rightarrow> ained_coeff_t \<Rightarrow> ained" where
  "ained_set_coefficients_euclidean cfs0 h factor reach co_index =
     (let cfs = fold (\<lambda>r. fold (\<lambda>c cfs.
                  let distance = max 0 (sqrt (real (r * r + c * c)) - 1);
                      ind = int r * 5 + int c - 1;
                      v = coeff_byte factor reach distance
                  in if ind \<ge> 0 then cfs[nat ind := v] else cfs) [0..<5]) [0..<5] cfs0
      in store_coeffs h (coeff_base co_index) cfs)"

definition ained_set_coefficients_manhattan ::
  "u8 list \<Rightarrow> ained \<Rightarrow> real \<Rightarrow> u32 \<Rightarrow> ained_coeff_t \<Rightarrow> ained" where
  "ained_set_coefficients_manhattan cfs0 h factor reach co_index =
     (let cfs = fold (\<lambda>r. fold (\<lambda>c cfs.
                  let distance = max 0 (real_of_int (int r + int c - 1));
                      ind = int r * 5 + int c - 1;
                      v = coeff_byte factor reach distance
                  in if ind \<ge> 0 then cfs[nat ind := v] else cfs) [0..<5]) [0..<5] cfs0
      in store_coeffs h (coeff_base co_index) cfs)"

subsection \<open>Vocabulary of the statements\<close>

text \<open>The cell \<open>(row, col)\<close> of the grid as a truth value, read as \<^verbatim>\<open>ained_get_bit\<close> does.\<close>

definition cell :: "ained \<Rightarrow> u32 \<Rightarrow> u32 \<Rightarrow> bool" where
  "cell h row col =
     bit (memory h (unat (ained_get_index row col))) (unat (ained_get_word_index row col))"

text \<open>A coordinate of the 128 x 64 grid.\<close>

definition in_grid :: "u32 \<Rightarrow> u32 \<Rightarrow> bool" where
  "in_grid row col = (unat row < 128 \<and> unat col < 64)"

text \<open>A sub-region that lies inside the grid, and its cells (absolute coordinates).\<close>

definition region_ok :: "u32 \<Rightarrow> u32 \<Rightarrow> u32 \<Rightarrow> u32 \<Rightarrow> bool" where
  "region_ok start_row start_col num_row num_col =
     (unat start_row + unat num_row \<le> 128 \<and> unat start_col + unat num_col \<le> 64)"

definition in_region :: "u32 \<Rightarrow> u32 \<Rightarrow> u32 \<Rightarrow> u32 \<Rightarrow> u32 \<Rightarrow> u32 \<Rightarrow> bool" where
  "in_region start_row start_col num_row num_col r c =
     (unat start_row \<le> unat r \<and> unat r < unat start_row + unat num_row \<and>
      unat start_col \<le> unat c \<and> unat c < unat start_col + unat num_col)"

text \<open>No transaction is pending: the state \<^verbatim>\<open>ained_init\<close> and \<^verbatim>\<open>ained_commit\<close> leave.\<close>

definition tx_idle :: "ained \<Rightarrow> bool" where
  "tx_idle h = (sint (index h) < 0 \<and> mask_h h = 0)"

text \<open>Two coordinates that address the same bit of the same word.\<close>

definition same_bit :: "u32 \<Rightarrow> u32 \<Rightarrow> u32 \<Rightarrow> u32 \<Rightarrow> bool" where
  "same_bit r c r' c' =
     (ained_get_index r c = ained_get_index r' c' \<and>
      ained_get_word_index r c = ained_get_word_index r' c')"

text \<open>
  What \<^verbatim>\<open>ained_flip_lights\<close> toggles at the cell \<open>(r, c)\<close> on top of restoring the
  snapshot: the bit it commits and the four conditional neighbour flips, each at the
  coordinate the code computes; two toggles of one bit cancel.
\<close>

definition cross_delta ::
  "u32 \<Rightarrow> u32 \<Rightarrow> u32 \<Rightarrow> u32 \<Rightarrow> u32 \<Rightarrow> u32 \<Rightarrow> u32 \<Rightarrow> u32 \<Rightarrow> bool" where
  "cross_delta start_row start_col num_row num_col row col r c =
     ((((same_bit (start_row + row) (start_col + col) r c
         \<noteq> (row > 0 \<and> same_bit (start_row + row - 1) (start_col + col) r c))
         \<noteq> (row < num_row - 1 \<and> same_bit (start_row + row + 1) (start_col + col) r c))
         \<noteq> (col > 0 \<and> same_bit (start_row + row) (start_col + col - 1) r c))
         \<noteq> (col < num_col - 1 \<and> same_bit (start_row + row) (start_col + col + 1) r c))"

text \<open>The target cell or one of its four orthogonal neighbours.\<close>

definition on_cross :: "u32 \<Rightarrow> u32 \<Rightarrow> u32 \<Rightarrow> u32 \<Rightarrow> bool" where
  "on_cross row col r c =
     ((unat r = unat row \<and> unat c = unat col) \<or>
      (unat c = unat col \<and> (unat r = unat row + 1 \<or> unat r + 1 = unat row)) \<or>
      (unat r = unat row \<and> (unat c = unat col + 1 \<or> unat c + 1 = unat col)))"

text \<open>The handle apart from the contents of the memory window.\<close>

definition ctl :: "ained \<Rightarrow> ained" where
  "ctl h = h\<lparr>memory := (\<lambda>_. 0)\<rparr>"

subsection \<open>A concrete handle\<close>

text \<open>
  The handle as \<^verbatim>\<open>ained_init\<close> leaves it (\<^verbatim>\<open>mask = value = 0\<close>, \<^verbatim>\<open>index = -1\<close>) on a device
  whose windows read zero and that has no dipole.
\<close>

definition blank_handle :: ained where
  "blank_handle =
     \<lparr>memory = (\<lambda>_. 0), reg_mask = 0, regs = (\<lambda>_. 0), num_dipoles = 0,
      index = - 1, mask_h = 0, value_h = 0, stderr_log = []\<rparr>"

section \<open>The entry guard of the cross flip\<close>

text \<open>
  C10. When the target arguments fail the entry guard of \<^verbatim>\<open>ained_flip_lights\<close>
  (\<open>row < start_row\<close>, or \<open>row > start_row + num_row - 1\<close>, or \<open>col < start_col\<close>, or
  \<open>col > start_col + num_col - 1\<close>, all in 32-bit unsigned arithmetic), the call returns
  at once and the whole handle (grid words, pending transaction, registers) is what it
  was.
\<close>

theorem flip_lights_guard_rejects:
  assumes "row < start_row \<or> row > start_row + num_row - 1 \<or>
           col < start_col \<or> col > start_col + num_col - 1"
  shows "ained_flip_lights h start_row start_col num_row num_col row col = h"
  using assms by (simp add: ained_flip_lights_def)

theorem flip_lights_guard_rejects_witness:
  "((5::u32) < 2 \<or> (5::u32) > 2 + 3 - 1 \<or> (0::u32) < 0 \<or> (0::u32) > 0 + 4 - 1) \<and>
   ained_flip_lights blank_handle 2 0 3 4 5 0 = blank_handle"
  using flip_lights_guard_rejects [of 5 2 3 0 0 4 blank_handle] by simp

section \<open>Addressing lemmas\<close>

lemma get_index_unat:
  assumes "in_grid r c"
  shows "unat (ained_get_index r c) = unat r div 8 * 8 + unat c div 8"
proof -
  have "unat r < 128" "unat c < 64" using assms by (simp_all add: in_grid_def)
  then show ?thesis
    by (simp add: ained_get_index_def bsize_def unat_word_ariths unat_div)
qed

lemma get_word_index_unat:
  "unat (ained_get_word_index r c) = unat r mod 8 * 8 + unat c mod 8"
  by (simp add: ained_get_word_index_def bsize_def unat_word_ariths unat_div unat_mod)

lemma get_word_index_lt: "unat (ained_get_word_index r c) < 64"
proof -
  have "unat r mod 8 < 8" "unat c mod 8 < 8" by simp_all
  then show ?thesis unfolding get_word_index_unat by linarith
qed

lemma get_index_lt: 
  assumes g: "in_grid r c" shows "unat (ained_get_index r c) < 128"
proof -
  have "unat r < 128" "unat c < 64" using assms by (simp_all add: in_grid_def)
  then have "unat r div 8 < 16" "unat c div 8 < 8" by simp_all
  then show ?thesis unfolding get_index_unat [OF g] by linarith
qed

lemma tile_split:
  fixes a b a' b' :: nat
  assumes "a * 8 + b = a' * 8 + b'" "b < 8" "b' < 8"
  shows "a = a' \<and> b = b'"
  using assms by arith

lemma phys_inj:
  assumes "in_grid r c" "in_grid r' c'"
    and "ained_get_index r c = ained_get_index r' c'"
    and "ained_get_word_index r c = ained_get_word_index r' c'"
  shows "r = r' \<and> c = c'"
proof -
  have lt: "unat c < 64" "unat c' < 64" using assms(1,2) by (simp_all add: in_grid_def)
  have a: "unat r div 8 * 8 + unat c div 8 = unat r' div 8 * 8 + unat c' div 8"
    using assms(3) get_index_unat [OF assms(1)] get_index_unat [OF assms(2)] by simp
  have b: "unat r mod 8 * 8 + unat c mod 8 = unat r' mod 8 * 8 + unat c' mod 8"
    using assms(4) get_word_index_unat [of r c] get_word_index_unat [of r' c'] by simp
  have a': "unat r div 8 = unat r' div 8 \<and> unat c div 8 = unat c' div 8"
    using lt by (intro tile_split [OF a]) simp_all
  have b': "unat r mod 8 = unat r' mod 8 \<and> unat c mod 8 = unat c' mod 8"
    by (intro tile_split [OF b]) simp_all
  have "unat r = unat r'" using a' b' by (metis div_mult_mod_eq)
  moreover have "unat c = unat c'" using a' b' by (metis div_mult_mod_eq)
  ultimately show ?thesis by (simp add: word_unat_eq_iff)
qed

lemma get_bit_cell: "ained_get_bit h r c = (if cell h r c then 1 else 0)"
  by (simp add: ained_get_bit_def cell_def bit_iff_and_push_bit_not_eq_0)

lemma unat_of_nat_small: "n < 4294967296 \<Longrightarrow> unat (of_nat n :: u32) = n"
  by (simp add: unat_of_nat)

lemma to_physical_onto:
  assumes "w < 128" "b < 64"
  shows "\<exists>r c. in_grid r c \<and> unat (ained_get_index r c) = w \<and> unat (ained_get_word_index r c) = b"
proof -
  let ?r = "of_nat (w div 8 * 8 + b div 8) :: u32"
  let ?c = "of_nat (w mod 8 * 8 + b mod 8) :: u32"
  have rb: "w div 8 * 8 + b div 8 < 128"
  proof -
    have "w div 8 < 16" "b div 8 < 8" using assms by simp_all
    then show ?thesis by linarith
  qed
  have cb: "w mod 8 * 8 + b mod 8 < 64"
  proof -
    have "w mod 8 < 8" "b mod 8 < 8" by simp_all
    then show ?thesis by linarith
  qed
  have ur: "unat ?r = w div 8 * 8 + b div 8" using rb by (intro unat_of_nat_small) simp
  have uc: "unat ?c = w mod 8 * 8 + b mod 8" using cb by (intro unat_of_nat_small) simp
  have g: "in_grid ?r ?c" using rb cb ur uc by (simp add: in_grid_def)
  have "unat (ained_get_index ?r ?c) = w"
    using assms unfolding get_index_unat [OF g] ur uc by simp
  moreover have "unat (ained_get_word_index ?r ?c) = b"
    using assms unfolding get_word_index_unat ur uc by simp
  ultimately show ?thesis using g by blast
qed

lemma mem_write_simps [simp]:
  "memory (mem_write i w h) = (memory h)(i := (memory h i AND NOT (reg_mask h)) OR (w AND reg_mask h))"
  "reg_mask (mem_write i w h) = reg_mask h"
  "regs (mem_write i w h) = regs h"
  "num_dipoles (mem_write i w h) = num_dipoles h"
  "index (mem_write i w h) = index h"
  "mask_h (mem_write i w h) = mask_h h"
  "value_h (mem_write i w h) = value_h h"
  "stderr_log (mem_write i w h) = stderr_log h"
  by (simp_all add: mem_write_def)

lemma set_bypass_simps [simp]:
  "memory (ained_set_bypass h e) = memory h"
  "reg_mask (ained_set_bypass h e) = (if e then - 1 else 0)"
  "regs (ained_set_bypass h e) = (regs h)(14 := (if e then 1 else 0))"
  "num_dipoles (ained_set_bypass h e) = num_dipoles h"
  "index (ained_set_bypass h e) = index h"
  "mask_h (ained_set_bypass h e) = mask_h h"
  "value_h (ained_set_bypass h e) = value_h h"
  "stderr_log (ained_set_bypass h e) = stderr_log h"
  by (simp_all add: ained_set_bypass_def AINED_REG_BYPASS_def)

lemma fold_clear:
  "reg_mask h = - 1 \<Longrightarrow>
   memory (fold (\<lambda>j. mem_write j 0) js h) = (\<lambda>k. if k \<in> set js then 0 else memory h k) \<and>
   reg_mask (fold (\<lambda>j. mem_write j 0) js h) = - 1 \<and>
   regs (fold (\<lambda>j. mem_write j 0) js h) = regs h \<and>
   num_dipoles (fold (\<lambda>j. mem_write j 0) js h) = num_dipoles h \<and>
   index (fold (\<lambda>j. mem_write j 0) js h) = index h \<and>
   mask_h (fold (\<lambda>j. mem_write j 0) js h) = mask_h h \<and>
   value_h (fold (\<lambda>j. mem_write j 0) js h) = value_h h \<and>
   stderr_log (fold (\<lambda>j. mem_write j 0) js h) = stderr_log h"
proof (induction js arbitrary: h)
  case Nil
  then show ?case by simp
next
  case (Cons j js)
  have m: "reg_mask (mem_write j 0 h) = - 1" using Cons.prems by simp
  show ?case using Cons.IH [OF m] Cons.prems by (auto simp: fun_eq_iff)
qed

lemma clear_memory_simps:
  "memory (ained_clear_memory h) = (\<lambda>k. if k < 128 then 0 else memory h k)"
  "reg_mask (ained_clear_memory h) = 0"
  "regs (ained_clear_memory h) = (regs h)(14 := 0)"
  "num_dipoles (ained_clear_memory h) = num_dipoles h"
  "index (ained_clear_memory h) = index h"
  "mask_h (ained_clear_memory h) = mask_h h"
  "value_h (ained_clear_memory h) = value_h h"
  "stderr_log (ained_clear_memory h) = stderr_log h"
proof -
  have m: "reg_mask (ained_set_bypass h True) = - 1" by simp
  note f = fold_clear [OF m, of "[0..<128]"]
  show "memory (ained_clear_memory h) = (\<lambda>k. if k < 128 then 0 else memory h k)"
    "reg_mask (ained_clear_memory h) = 0"
    "regs (ained_clear_memory h) = (regs h)(14 := 0)"
    "num_dipoles (ained_clear_memory h) = num_dipoles h"
    "index (ained_clear_memory h) = index h"
    "mask_h (ained_clear_memory h) = mask_h h"
    "value_h (ained_clear_memory h) = value_h h"
    "stderr_log (ained_clear_memory h) = stderr_log h"
    unfolding ained_clear_memory_def num_words_def Let_def
    by (simp_all add: f fun_eq_iff)
qed

lemma sint_nonneg_small:
  assumes "unat (w::u32) < 128" shows "0 \<le> sint w"
proof -
  have "bit (unat w) 31 = bit w 31" by (simp add: bit_unsigned_iff)
  moreover have "\<not> bit (unat w) 31" using assms by (simp add: bit_iff_odd)
  ultimately have "\<not> bit w (LENGTH(32) - Suc 0)" by simp
  then show ?thesis unfolding bit_last_iff by simp
qed

lemma set_bit_accept:
  assumes "sint (index h) < 0 \<or> index h = ained_get_index r c"
  shows "ained_set_bit h r c v =
           h\<lparr>index := ained_get_index r c,
             mask_h := mask_h h OR push_bit (unat (ained_get_word_index r c)) 1,
             value_h := (if v \<noteq> 0 then value_h h OR push_bit (unat (ained_get_word_index r c)) 1
                         else value_h h AND NOT (push_bit (unat (ained_get_word_index r c)) 1))\<rparr>"
  using assms by (auto simp: ained_set_bit_def Let_def)

lemma set_bit_reject:
  assumes "0 \<le> sint (index h)" "index h \<noteq> ained_get_index r c"
  shows "ained_set_bit h r c v = fprintf_stderr CrossWordConflict h"
  using assms by (auto simp: ained_set_bit_def Let_def)

lemma commit_pending:
  assumes "0 \<le> sint (index h)"
  shows "ained_commit h =
           h\<lparr>memory := (memory h)(unat (index h) :=
                 (memory h (unat (index h)) AND NOT (mask_h h)) OR (value_h h AND mask_h h)),
             reg_mask := mask_h h, index := - 1, mask_h := 0, value_h := 0\<rparr>"
  using assms by (simp add: ained_commit_def Let_def mem_write_def)

lemma flip_bypassed:
  assumes "reg_mask h = - 1"
  shows "ained_flip_isolated_bit h r c =
           h\<lparr>memory := (memory h)(unat (ained_get_index r c) :=
                 memory h (unat (ained_get_index r c)) XOR
                   push_bit (unat (ained_get_word_index r c)) 1)\<rparr>"
  using assms by (simp add: ained_flip_isolated_bit_def Let_def mem_write_def)

lemma flip_twice:
  assumes "reg_mask h = - 1"
  shows "ained_flip_isolated_bit (ained_flip_isolated_bit h r c) r c = h"
proof -
  have m: "reg_mask (ained_flip_isolated_bit h r c) = - 1"
    using assms by (simp add: flip_bypassed)
  show ?thesis
    unfolding flip_bypassed [OF m] unfolding flip_bypassed [OF assms]
    by (simp add: xor.assoc)
qed

lemma cell_flip:
  assumes "reg_mask h = - 1" "in_grid r c" "in_grid r' c'"
  shows "cell (ained_flip_isolated_bit h r c) r' c' = (cell h r' c' \<noteq> (r' = r \<and> c' = c))"
proof (cases "r' = r \<and> c' = c")
  case True
  then show ?thesis
    by (simp add: flip_bypassed [OF assms(1)] cell_def bit_simps get_word_index_lt)
next
  case False
  then have "ained_get_index r c \<noteq> ained_get_index r' c' \<or>
             ained_get_word_index r c \<noteq> ained_get_word_index r' c'"
    using phys_inj [OF assms(2,3)] by blast
  then show ?thesis using False
    by (auto simp: flip_bypassed [OF assms(1)] cell_def bit_simps word_unat_eq_iff)
qed

section \<open>Claims about addressing\<close>

text \<open>
  C6 (as amended). For every coordinate of the grid (\<open>row < 128\<close>, \<open>col < 64\<close>) the word
  index is \<open>(row div 8) * 8 + col div 8\<close> and lies in 0..127, the bit index is
  \<open>(row mod 8) * 8 + col mod 8\<close> and lies in 0..63; two grid coordinates with the same
  word index and bit index are equal; and every pair of a word 0..127 and a bit 0..63 is
  the image of a grid coordinate.
\<close>

theorem to_physical_layout:
  assumes "in_grid r c" "in_grid r' c'" "w < 128" "b < 64"
  shows "unat (ained_get_index r c) = unat r div 8 * 8 + unat c div 8 \<and>
         unat (ained_get_word_index r c) = unat r mod 8 * 8 + unat c mod 8 \<and>
         unat (ained_get_index r c) < 128 \<and>
         unat (ained_get_word_index r c) < 64 \<and>
         (ained_get_index r c = ained_get_index r' c' \<and>
          ained_get_word_index r c = ained_get_word_index r' c' \<longrightarrow> r = r' \<and> c = c') \<and>
         (\<exists>r0 c0. in_grid r0 c0 \<and> unat (ained_get_index r0 c0) = w \<and>
                  unat (ained_get_word_index r0 c0) = b)"
  using get_index_unat [OF assms(1)] get_word_index_unat [of r c]
    get_index_lt [OF assms(1)] get_word_index_lt [of r c]
    phys_inj [OF assms(1,2)] to_physical_onto [OF assms(3,4)]
  by blast

text \<open>The layout at the last cell of the grid, and a preimage of word 100, bit 37.\<close>

theorem to_physical_layout_witness:
  "in_grid 127 63 \<and> in_grid 5 9 \<and> (100::nat) < 128 \<and> (37::nat) < 64 \<and>
   unat (ained_get_index 127 63) = 127 \<and>
   unat (ained_get_word_index 127 63) = 63 \<and>
   (\<exists>r0 c0. in_grid r0 c0 \<and> unat (ained_get_index r0 c0) = 100 \<and>
            unat (ained_get_word_index r0 c0) = 37)"
proof -
  have g: "in_grid 127 63" "in_grid 5 9" by (simp_all add: in_grid_def)
  have n: "(100::nat) < 128" "(37::nat) < 64" by simp_all
  show ?thesis using g n to_physical_layout [OF g n] by simp
qed

text \<open>
  C6 as stated bounds both indices by 63; the word index of the grid cell \<open>(64, 0)\<close> is 64.
\<close>

theorem word_index_exceeds_63:
  "in_grid 64 0 \<and> \<not> unat (ained_get_index 64 0) \<le> 63"
  by (simp add: in_grid_def ained_get_index_def bsize_def)

section \<open>Claims about bypass and clearing\<close>

text \<open>
  C3 (as amended). After \<^verbatim>\<open>ained_clear_memory\<close> every bit of the grid reads 0 and each of
  the 128 words is 0; the bypass register and the write mask are 0, whatever they were
  before the call.
\<close>

theorem clear_memory_zeroes:
  assumes "in_grid r c" "j < 128"
  shows "ained_get_bit (ained_clear_memory h) r c = 0 \<and>
         memory (ained_clear_memory h) j = 0 \<and>
         regs (ained_clear_memory h) (unat AINED_REG_BYPASS) = 0 \<and>
         reg_mask (ained_clear_memory h) = 0"
  using assms get_index_lt [OF assms(1)]
  by (simp add: get_bit_cell cell_def clear_memory_simps AINED_REG_BYPASS_def)

text \<open>Clearing a handle whose bypass was enabled.\<close>

theorem clear_memory_zeroes_witness:
  "in_grid 127 63 \<and> (127::nat) < 128 \<and>
   ained_get_bit (ained_clear_memory (ained_set_bypass blank_handle True)) 127 63 = 0 \<and>
   memory (ained_clear_memory (ained_set_bypass blank_handle True)) 127 = 0 \<and>
   regs (ained_clear_memory (ained_set_bypass blank_handle True)) (unat AINED_REG_BYPASS) = 0"
proof -
  have g: "in_grid 127 63" by (simp add: in_grid_def)
  have n: "(127::nat) < 128" by simp
  show ?thesis
    using g n clear_memory_zeroes [OF g n, of "ained_set_bypass blank_handle True"] by simp
qed

text \<open>
  C3 as stated keeps the bypass flag; with bypass enabled before the call the register
  reads 1 before and 0 after.
\<close>

theorem clear_memory_drops_bypass:
  "regs (ained_set_bypass blank_handle True) (unat AINED_REG_BYPASS) = 1 \<and>
   regs (ained_clear_memory (ained_set_bypass blank_handle True)) (unat AINED_REG_BYPASS)
     \<noteq> regs (ained_set_bypass blank_handle True) (unat AINED_REG_BYPASS)"
  by (simp add: clear_memory_simps AINED_REG_BYPASS_def)

section \<open>Claims about the transaction buffer\<close>

text \<open>
  C4. With no transaction pending, setting two bits whose grid coordinates map to the same
  word and committing leaves a word whose two addressed bits hold the requested values
  (the later call decides when both address the same bit; distinct coordinates address
  distinct bits) and whose other bits are those of the word before the commit; the other
  words are untouched and the pending transaction (index, mask, value) is cleared.
\<close>

theorem set_bits_same_word_commit:
  assumes "in_grid r1 c1" "in_grid r2 c2"
    and "ained_get_index r1 c1 = ained_get_index r2 c2"
    and "tx_idle h"
  shows "let h' = ained_commit (ained_set_bit (ained_set_bit h r1 c1 v1) r2 c2 v2);
             W = unat (ained_get_index r1 c1);
             b1 = unat (ained_get_word_index r1 c1);
             b2 = unat (ained_get_word_index r2 c2)
         in bit (memory h' W) b2 = (v2 \<noteq> 0) \<and>
            (b1 \<noteq> b2 \<longrightarrow> bit (memory h' W) b1 = (v1 \<noteq> 0)) \<and>
            ((r1, c1) \<noteq> (r2, c2) \<longrightarrow> b1 \<noteq> b2) \<and>
            (\<forall>k. k \<noteq> b1 \<and> k \<noteq> b2 \<longrightarrow> bit (memory h' W) k = bit (memory h W) k) \<and>
            (\<forall>j. j \<noteq> W \<longrightarrow> memory h' j = memory h j) \<and>
            index h' = - 1 \<and> mask_h h' = 0 \<and> value_h h' = 0"
proof -
  let ?h1 = "ained_set_bit h r1 c1 v1"
  let ?h2 = "ained_set_bit ?h1 r2 c2 v2"
  have a1: "sint (index h) < 0 \<or> index h = ained_get_index r1 c1"
    using assms(4) by (simp add: tx_idle_def)
  have m0: "mask_h h = 0" using assms(4) by (simp add: tx_idle_def)
  note e1 = set_bit_accept [OF a1, of v1]
  have a2: "sint (index ?h1) < 0 \<or> index ?h1 = ained_get_index r2 c2"
    unfolding e1 using assms(3) by simp
  note e2 = set_bit_accept [OF a2, of v2]
  have p: "0 \<le> sint (index ?h2)"
    unfolding e2 using sint_nonneg_small [OF get_index_lt [OF assms(2)]] by simp
  note e3 = commit_pending [OF p]
  have lt: "unat (ained_get_word_index r1 c1) < 64" "unat (ained_get_word_index r2 c2) < 64"
    by (rule get_word_index_lt)+
  have d: "(r1, c1) \<noteq> (r2, c2) \<longrightarrow>
           unat (ained_get_word_index r1 c1) \<noteq> unat (ained_get_word_index r2 c2)"
    using phys_inj [OF assms(1,2)] assms(3) by (auto simp: word_unat_eq_iff)
  show ?thesis
    unfolding Let_def e3 unfolding e2 unfolding e1
    using lt d m0 assms(3)
    by (auto simp: bit_simps dest: bit_imp_le_length)
qed

text \<open>The example of \<^verbatim>\<open>ained.h\<close>: bit (7, 7) to 1 and bit (6, 6) to 0, then commit.\<close>

theorem set_bits_same_word_commit_witness:
  "in_grid 7 7 \<and> in_grid 6 6 \<and> ained_get_index 7 7 = ained_get_index 6 6 \<and>
   tx_idle blank_handle \<and>
   (let h' = ained_commit (ained_set_bit (ained_set_bit blank_handle 7 7 1) 6 6 0);
        W = unat (ained_get_index 7 7);
        b1 = unat (ained_get_word_index 7 7);
        b2 = unat (ained_get_word_index 6 6)
    in bit (memory h' W) b2 = ((0::u32) \<noteq> 0) \<and>
       (b1 \<noteq> b2 \<longrightarrow> bit (memory h' W) b1 = ((1::u32) \<noteq> 0)) \<and>
       index h' = - 1 \<and> mask_h h' = 0 \<and> value_h h' = 0)"
proof -
  have g: "in_grid 7 7" "in_grid 6 6" by (simp_all add: in_grid_def)
  have e: "ained_get_index 7 7 = ained_get_index 6 6"
    by (simp add: ained_get_index_def bsize_def)
  have i: "tx_idle blank_handle" by (simp add: tx_idle_def blank_handle_def)
  show ?thesis
    using g e i set_bits_same_word_commit [OF g e i, of 1 0] by (simp add: Let_def)
qed

text \<open>
  C5. When a first \<^verbatim>\<open>ained_set_bit\<close> on a grid coordinate is accepted and a second one
  addresses a different word before any commit, the second call only reports
  \<open>CrossWordConflict\<close>: the handle is the one the first call left, with that diagnostic
  appended, so the pending word index, mask and value (holding the first bit) and the
  memory are unchanged.
\<close>

theorem set_bit_cross_word_conflict:
  assumes "in_grid r1 c1"
    and "ained_get_index r1 c1 \<noteq> ained_get_index r2 c2"
    and "sint (index h) < 0 \<or> index h = ained_get_index r1 c1"
  shows "let h1 = ained_set_bit h r1 c1 v1; h2 = ained_set_bit h1 r2 c2 v2
         in h2 = h1\<lparr>stderr_log := stderr_log h1 @ [CrossWordConflict]\<rparr> \<and>
            index h2 = ained_get_index r1 c1 \<and> index h2 = index h1 \<and>
            value_h h2 = value_h h1 \<and> mask_h h2 = mask_h h1 \<and>
            memory h2 = memory h \<and>
            bit (mask_h h2) (unat (ained_get_word_index r1 c1)) \<and>
            bit (value_h h2) (unat (ained_get_word_index r1 c1)) = (v1 \<noteq> 0)"
proof -
  let ?h1 = "ained_set_bit h r1 c1 v1"
  note e1 = set_bit_accept [OF assms(3), of v1]
  have p: "0 \<le> sint (index ?h1)"
    unfolding e1 using sint_nonneg_small [OF get_index_lt [OF assms(1)]] by simp
  have n: "index ?h1 \<noteq> ained_get_index r2 c2"
    unfolding e1 using assms(2) by simp
  note e2 = set_bit_reject [OF p n, of v2]
  have lt: "unat (ained_get_word_index r1 c1) < 64" by (rule get_word_index_lt)
  show ?thesis
    unfolding Let_def e2 fprintf_stderr_def unfolding e1
    using lt by (simp add: bit_simps)
qed

text \<open>Bit (0, 0) in word 0, then bit (8, 0) in word 8.\<close>

theorem set_bit_cross_word_conflict_witness:
  "in_grid 0 0 \<and> ained_get_index 0 0 \<noteq> ained_get_index 8 0 \<and>
   (sint (index blank_handle) < 0 \<or> index blank_handle = ained_get_index 0 0) \<and>
   (let h1 = ained_set_bit blank_handle 0 0 1; h2 = ained_set_bit h1 8 0 1
    in h2 = h1\<lparr>stderr_log := stderr_log h1 @ [CrossWordConflict]\<rparr> \<and>
       index h2 = ained_get_index 0 0 \<and> index h2 = index h1 \<and>
       value_h h2 = value_h h1 \<and> mask_h h2 = mask_h h1 \<and>
       memory h2 = memory blank_handle \<and>
       bit (mask_h h2) (unat (ained_get_word_index 0 0)) \<and>
       bit (value_h h2) (unat (ained_get_word_index 0 0)) = ((1::u32) \<noteq> 0))"
proof -
  have g: "in_grid 0 0" by (simp add: in_grid_def)
  have e: "ained_get_index 0 0 \<noteq> ained_get_index 8 0"
    by (simp add: ained_get_index_def bsize_def)
  have i: "sint (index blank_handle) < 0 \<or> index blank_handle = ained_get_index 0 0"
    by (simp add: blank_handle_def)
  show ?thesis
    using g e i set_bit_cross_word_conflict [OF g e i, of 1 1] by blast
qed

section \<open>Claims about the isolated flip\<close>

text \<open>
  C9. With the write mask all ones (bypass enabled, which \<^verbatim>\<open>ained_flip_isolated_bit\<close>
  assumes) and a coordinate of the grid, the flip complements the addressed bit, leaves
  every other bit of every word and every other grid cell as it was, leaves the rest of
  the handle alone, and a second flip of the same coordinate gives back the handle.
\<close>

theorem flip_isolated_bit_exact:
  assumes "in_grid r c" "reg_mask h = - 1"
  shows "let h' = ained_flip_isolated_bit h r c
         in cell h' r c = (\<not> cell h r c) \<and>
            ained_get_bit h' r c = 1 - ained_get_bit h r c \<and>
            (\<forall>j k. (j, k) \<noteq> (unat (ained_get_index r c), unat (ained_get_word_index r c))
                   \<longrightarrow> bit (memory h' j) k = bit (memory h j) k) \<and>
            (\<forall>r' c'. in_grid r' c' \<and> (r', c') \<noteq> (r, c) \<longrightarrow> cell h' r' c' = cell h r' c') \<and>
            reg_mask h' = reg_mask h \<and> regs h' = regs h \<and> index h' = index h \<and>
            mask_h h' = mask_h h \<and> value_h h' = value_h h \<and>
            ained_flip_isolated_bit h' r c = h"
proof -
  have c1: "\<forall>r' c'. in_grid r' c' \<and> (r', c') \<noteq> (r, c) \<longrightarrow>
              cell (ained_flip_isolated_bit h r c) r' c' = cell h r' c'"
    using cell_flip [OF assms(2,1)] by auto
  have c2: "cell (ained_flip_isolated_bit h r c) r c = (\<not> cell h r c)"
    using cell_flip [OF assms(2,1,1)] by simp
  have c3: "\<forall>j k. (j, k) \<noteq> (unat (ained_get_index r c), unat (ained_get_word_index r c))
                   \<longrightarrow> bit (memory (ained_flip_isolated_bit h r c) j) k = bit (memory h j) k"
    by (auto simp: flip_bypassed [OF assms(2)] bit_simps)
  have c4: "ained_get_bit (ained_flip_isolated_bit h r c) r c = 1 - ained_get_bit h r c"
    using c2 by (simp add: get_bit_cell)
  show ?thesis
    unfolding Let_def
    using c1 c2 c3 c4 flip_twice [OF assms(2), of r c]
    by (simp add: flip_bypassed [OF assms(2)])
qed

text \<open>Flipping cell (9, 10) under bypass.\<close>

theorem flip_isolated_bit_exact_witness:
  "in_grid 9 10 \<and> reg_mask (ained_set_bypass blank_handle True) = - 1 \<and>
   (let h' = ained_flip_isolated_bit (ained_set_bypass blank_handle True) 9 10
    in cell h' 9 10 = (\<not> cell (ained_set_bypass blank_handle True) 9 10) \<and>
       ained_flip_isolated_bit h' 9 10 = ained_set_bypass blank_handle True)"
proof -
  have g: "in_grid 9 10" by (simp add: in_grid_def)
  have m: "reg_mask (ained_set_bypass blank_handle True) = - 1" by simp
  show ?thesis
    using g m flip_isolated_bit_exact [OF g m] by (simp add: Let_def)
qed

section \<open>Loops that fill an array\<close>

lemma fold_product:
  "fold (\<lambda>r. fold (F r) cs) rs b = fold (\<lambda>(r, c). F r c) (List.product rs cs) b"
proof (induction rs arbitrary: b)
  case Nil
  then show ?case by simp
next
  case (Cons r rs)
  have "fold (\<lambda>(r, c). F r c) (map (Pair r) cs) b' = fold (F r) cs b'" for b'
    by (induction cs arbitrary: b') simp_all
  then show ?case using Cons.IH by simp
qed

lemma fold_writes_nth:
  assumes keep: "\<And>p b. p \<in> set ps \<Longrightarrow> length b = n \<Longrightarrow>
                   length (step p b) = n \<and> (step p b ! k = b ! k \<or> step p b ! k = v)"
    and len: "length b = n"
  shows "length (fold step ps b) = n \<and>
         (fold step ps b ! k = b ! k \<or> fold step ps b ! k = v) \<and>
         ((\<exists>p \<in> set ps. \<forall>b. length b = n \<longrightarrow> step p b ! k = v) \<longrightarrow> fold step ps b ! k = v)"
  using keep len
proof (induction ps arbitrary: b)
  case Nil
  then show ?case by simp
next
  case (Cons p ps)
  have s: "length (step p b) = n \<and> (step p b ! k = b ! k \<or> step p b ! k = v)"
    using Cons.prems(1) [of p b] Cons.prems(2) by simp
  have ih: "length (fold step ps (step p b)) = n \<and>
         (fold step ps (step p b) ! k = step p b ! k \<or> fold step ps (step p b) ! k = v) \<and>
         ((\<exists>p \<in> set ps. \<forall>b. length b = n \<longrightarrow> step p b ! k = v) \<longrightarrow>
            fold step ps (step p b) ! k = v)"
    using Cons.IH [of "step p b"] Cons.prems(1) s by simp
  show ?case
  proof (intro conjI impI)
    show "length (fold step (p # ps) b) = n" using ih by simp
    show "fold step (p # ps) b ! k = b ! k \<or> fold step (p # ps) b ! k = v"
      using ih s by auto
    assume "\<exists>q \<in> set (p # ps). \<forall>b. length b = n \<longrightarrow> step q b ! k = v"
    then consider "\<forall>b. length b = n \<longrightarrow> step p b ! k = v"
      | "\<exists>q \<in> set ps. \<forall>b. length b = n \<longrightarrow> step q b ! k = v" by auto
    then show "fold step (p # ps) b ! k = v"
    proof cases
      case 1
      then have "step p b ! k = v" using Cons.prems(2) by simp
      then show ?thesis using ih by auto
    next
      case 2
      then show ?thesis using ih by simp
    qed
  qed
qed

lemma pack4_bytes:
  "ucast (pack4 b0 b1 b2 b3) = b0"
  "ucast (drop_bit 8 (pack4 b0 b1 b2 b3)) = b1"
  "ucast (drop_bit 16 (pack4 b0 b1 b2 b3)) = b2"
  "ucast (drop_bit 24 (pack4 b0 b1 b2 b3)) = b3"
  unfolding pack4_def
  by (rule bit_word_eqI; auto simp: bit_simps dest: bit_imp_le_length)+

lemma fold_fun_upd:
  "fold (\<lambda>k rg. rg(a + k := g k)) ks rg x =
     (if \<exists>k \<in> set ks. a + k = x then g (x - a) else rg x)" for a :: nat
  by (induction ks arbitrary: rg) auto

lemma store_coeffs_regs:
  "regs (store_coeffs h base cfs) x =
     (if \<exists>k < 6. unat base + k = x
      then pack4 (cfs ! (4 * (x - unat base))) (cfs ! (4 * (x - unat base) + 1))
                 (cfs ! (4 * (x - unat base) + 2)) (cfs ! (4 * (x - unat base) + 3))
      else regs h x)"
  unfolding store_coeffs_def by (auto simp: fold_fun_upd)

lemma load_store_coeffs:
  assumes "i < 24"
  shows "load_coeffs (store_coeffs h base cfs) base ! i = cfs ! i"
proof -
  have d: "i div 4 < 6" using assms by simp
  have r: "regs (store_coeffs h base cfs) (unat base + i div 4) =
             pack4 (cfs ! (4 * (i div 4))) (cfs ! (4 * (i div 4) + 1))
                   (cfs ! (4 * (i div 4) + 2)) (cfs ! (4 * (i div 4) + 3))"
    using d by (auto simp: store_coeffs_regs)
  have i: "i = 4 * (i div 4) + i mod 4" by simp
  consider "i mod 4 = 0" | "i mod 4 = 1" | "i mod 4 = 2" | "i mod 4 = 3"
    by (metis One_nat_def Suc_1 mod_less_divisor less_Suc_eq less_nat_zero_code numeral_3_eq_3 zero_less_numeral numeral_Bit0 add_Suc_right add_Suc add_0_right add_2_eq_Suc')
  then have "ucast (drop_bit (8 * (i mod 4))
               (pack4 (cfs ! (4 * (i div 4))) (cfs ! (4 * (i div 4) + 1))
                      (cfs ! (4 * (i div 4) + 2)) (cfs ! (4 * (i div 4) + 3)))) =
             cfs ! (4 * (i div 4) + i mod 4)"
    by cases (simp_all add: pack4_bytes)
  then show ?thesis
    using assms r i by (simp add: load_coeffs_def)
qed

lemma kernel_fields:
  assumes "length cfs0 = 24" "k < 24"
  shows "fold (\<lambda>r. fold (\<lambda>c cfs.
                  let distance = D r c;
                      ind = int r * 5 + int c - 1;
                      v = coeff_byte factor reach distance
                  in if ind \<ge> 0 then cfs[nat ind := v] else cfs) [0..<5]) [0..<5] cfs0 ! k =
         coeff_byte factor reach (D ((k + 1) div 5) ((k + 1) mod 5))"
proof -
  let ?step = "\<lambda>(r, c) cfs.
                  let distance = D r c;
                      ind = int r * 5 + int c - 1;
                      v = coeff_byte factor reach distance
                  in if ind \<ge> 0 then cfs[nat ind := v] else cfs"
  let ?v = "coeff_byte factor reach (D ((k + 1) div 5) ((k + 1) mod 5))"
  let ?ps = "List.product [0..<5] [0..<5]"
  have keep: "length (?step p b) = 24 \<and> (?step p b ! k = b ! k \<or> ?step p b ! k = ?v)"
    if "p \<in> set ?ps" "length b = 24" for p b
  proof -
    obtain r c where p: "p = (r, c)" by (cases p)
    have c: "c < 5" using that(1) p by simp
    show ?thesis
    proof (cases "int r * 5 + int c - 1 \<ge> 0 \<and> nat (int r * 5 + int c - 1) = k")
      case True
      then have "r * 5 + c = k + 1" by linarith
      then have "r = (k + 1) div 5" "c = (k + 1) mod 5" using c by presburger+
      then show ?thesis using True that(2) assms(2) p by (simp add: Let_def)
    next
      case False
      then show ?thesis using that(2) p by (auto simp: Let_def)
    qed
  qed
  have w: "\<exists>p \<in> set ?ps. \<forall>b. length b = 24 \<longrightarrow> ?step p b ! k = ?v"
  proof (intro bexI [of _ "((k + 1) div 5, (k + 1) mod 5)"] allI impI)
    show "((k + 1) div 5, (k + 1) mod 5) \<in> set ?ps" using assms(2) by simp
    fix b :: "u8 list" assume l: "length b = 24"
    have "int ((k + 1) div 5) * 5 + int ((k + 1) mod 5) - 1 = int k"
      by (metis add_diff_cancel_right' div_mult_mod_eq of_nat_1 of_nat_add of_nat_mult of_nat_numeral)
    then show "?step ((k + 1) div 5, (k + 1) mod 5) b ! k = ?v"
      using l assms(2) by (simp add: Let_def)
  qed
  show ?thesis
    unfolding fold_product
    using fold_writes_nth [of ?ps 24 ?step k ?v cfs0, OF keep assms(1)] w
    by blast
qed

section \<open>Claims about the coefficient kernels\<close>

lemma coeff_byte_unit:
  "coeff_byte 1 reach d = (if 0 < d \<and> d \<le> real (unat reach) then 255 else 0)"
  by (simp add: coeff_byte_def c_round_def)

lemma manhattan_cond:
  fixes r c R :: nat
  shows "(0 < max 0 (real_of_int (int r + int c - 1)) \<and>
          max 0 (real_of_int (int r + int c - 1)) \<le> real R) =
         (2 \<le> r + c \<and> r + c \<le> R + 1)"
  by (auto simp: max_def)

lemma euclid_cond:
  fixes n R :: nat
  shows "(0 < max 0 (sqrt (real n) - 1) \<and> max 0 (sqrt (real n) - 1) \<le> real R) =
         (2 \<le> n \<and> n \<le> (R + 1)\<^sup>2)"
proof -
  have a: "(0 < max 0 (sqrt (real n) - 1)) = (2 \<le> n)"
  proof -
    have "(0 < max 0 (sqrt (real n) - 1)) = (1 < sqrt (real n))" by linarith
    also have "\<dots> = (1 < real n)" by (rule real_sqrt_gt_1_iff)
    also have "\<dots> = (2 \<le> n)" by linarith
    finally show ?thesis .
  qed
  have b: "(max 0 (sqrt (real n) - 1) \<le> real R) = (n \<le> (R + 1)\<^sup>2)"
  proof -
    have r0: "0 \<le> real R" by simp
    have r1: "real (R + 1) = real R + 1" by simp
    have "(max 0 (sqrt (real n) - 1) \<le> real R) = (sqrt (real n) \<le> real (R + 1))"
      unfolding r1 using r0 by linarith
    also have "\<dots> = (sqrt (real n) \<le> sqrt (real ((R + 1)\<^sup>2)))"
      by (simp add: real_sqrt_abs)
    also have "\<dots> = (real n \<le> real ((R + 1)\<^sup>2))" by (rule real_sqrt_le_iff)
    also have "\<dots> = (n \<le> (R + 1)\<^sup>2)" by (rule of_nat_le_iff)
    finally show ?thesis .
  qed
  show ?thesis unfolding a b ..
qed

lemma manhattan_unit_bytes:
  assumes "length cfs0 = 24" "i < 24"
  shows "load_coeffs (ained_set_coefficients_manhattan cfs0 h 1 reach co) (coeff_base co) ! i =
           (if 2 \<le> (i + 1) div 5 + (i + 1) mod 5 \<and>
               (i + 1) div 5 + (i + 1) mod 5 \<le> unat reach + 1
            then 255 else 0)"
proof -
  have "load_coeffs (ained_set_coefficients_manhattan cfs0 h 1 reach co) (coeff_base co) ! i =
        coeff_byte 1 reach
          (max 0 (real_of_int (int ((i + 1) div 5) + int ((i + 1) mod 5) - 1)))"
    unfolding ained_set_coefficients_manhattan_def Let_def load_store_coeffs [OF assms(2)]
    by (rule kernel_fields [where D = "\<lambda>r c. max 0 (real_of_int (int r + int c - 1))",
          unfolded Let_def, OF assms])
  then show ?thesis by (simp only: coeff_byte_unit manhattan_cond)
qed

lemma euclid_unit_bytes:
  assumes "length cfs0 = 24" "i < 24"
  shows "load_coeffs (ained_set_coefficients_euclidean cfs0 h 1 reach co) (coeff_base co) ! i =
           (if 2 \<le> (i + 1) div 5 * ((i + 1) div 5) + (i + 1) mod 5 * ((i + 1) mod 5) \<and>
               (i + 1) div 5 * ((i + 1) div 5) + (i + 1) mod 5 * ((i + 1) mod 5)
                 \<le> (unat reach + 1)\<^sup>2
            then 255 else 0)"
proof -
  have "load_coeffs (ained_set_coefficients_euclidean cfs0 h 1 reach co) (coeff_base co) ! i =
        coeff_byte 1 reach
          (max 0 (sqrt (real ((i + 1) div 5 * ((i + 1) div 5) +
                              (i + 1) mod 5 * ((i + 1) mod 5))) - 1))"
    unfolding ained_set_coefficients_euclidean_def Let_def load_store_coeffs [OF assms(2)]
    by (rule kernel_fields [where D = "\<lambda>r c. max 0 (sqrt (real (r * r + c * c)) - 1)",
          unfolded Let_def, OF assms])
  then show ?thesis by (simp only: coeff_byte_unit euclid_cond)
qed

text \<open>
  C8 (as amended). At factor 1, for every reach, field \<open>i\<close> of the kernel (the cell
  \<open>(r, c) = ((i + 1) div 5, (i + 1) mod 5)\<close>) is 255 when the distance of the cell from the
  cross is positive and at most \<open>reach\<close>, and 0 otherwise: for the Manhattan kernel when
  \<open>2 \<le> r + c \<le> reach + 1\<close>, for the Euclidean kernel when
  \<open>2 \<le> r\<^sup>2 + c\<^sup>2 \<le> (reach + 1)\<^sup>2\<close>. The fields 0 and 4, of the cells \<open>(0, 1)\<close> and
  \<open>(1, 0)\<close> next to the centre, are therefore 0 for every reach.
\<close>

theorem unit_factor_kernel:
  assumes "length cfs0 = 24" "i < 24"
  shows "load_coeffs (ained_set_coefficients_manhattan cfs0 h 1 reach co) (coeff_base co) ! i =
           (if 2 \<le> (i + 1) div 5 + (i + 1) mod 5 \<and>
               (i + 1) div 5 + (i + 1) mod 5 \<le> unat reach + 1
            then 255 else 0) \<and>
         load_coeffs (ained_set_coefficients_euclidean cfs0 h 1 reach co) (coeff_base co) ! i =
           (if 2 \<le> (i + 1) div 5 * ((i + 1) div 5) + (i + 1) mod 5 * ((i + 1) mod 5) \<and>
               (i + 1) div 5 * ((i + 1) div 5) + (i + 1) mod 5 * ((i + 1) mod 5)
                 \<le> (unat reach + 1)\<^sup>2
            then 255 else 0)"
  using manhattan_unit_bytes [OF assms] euclid_unit_bytes [OF assms] by simp

text \<open>Field 5, the cell (1, 1), at reach 7.\<close>

theorem unit_factor_kernel_witness:
  "length (replicate 24 (0::u8)) = 24 \<and> (5::nat) < 24 \<and>
   load_coeffs (ained_set_coefficients_manhattan (replicate 24 0) blank_handle 1 7
                  AINED_COEFF_LOW) (coeff_base AINED_COEFF_LOW) ! 5 = 255 \<and>
   load_coeffs (ained_set_coefficients_euclidean (replicate 24 0) blank_handle 1 7
                  AINED_COEFF_LOW) (coeff_base AINED_COEFF_LOW) ! 5 = 255"
proof -
  have l: "length (replicate 24 (0::u8)) = 24" by simp
  have n: "(5::nat) < 24" by simp
  show ?thesis
    using l n unit_factor_kernel [OF l n, of blank_handle 7 AINED_COEFF_LOW] by simp
qed

text \<open>
  C8 as stated makes all 24 bytes 255; at factor 1 and reach 1 the first stored byte, of
  the cell \<open>(0, 1)\<close>, is 0 in both kernels.
\<close>

theorem unit_factor_cross_bytes_zero:
  "load_coeffs (ained_set_coefficients_manhattan (replicate 24 0) blank_handle 1 1
                  AINED_COEFF_HIGH) (coeff_base AINED_COEFF_HIGH) ! 0 \<noteq> 255 \<and>
   load_coeffs (ained_set_coefficients_euclidean (replicate 24 0) blank_handle 1 1
                  AINED_COEFF_HIGH) (coeff_base AINED_COEFF_HIGH) ! 0 \<noteq> 255"
proof -
  have l: "length (replicate 24 (0::u8)) = 24" by simp
  have n: "(0::nat) < 24" by simp
  show ?thesis
    using manhattan_unit_bytes [OF l n, of blank_handle 1 AINED_COEFF_HIGH]
      euclid_unit_bytes [OF l n, of blank_handle 1 AINED_COEFF_HIGH] by simp
qed

section \<open>Claims about dipole and coefficient indices\<close>

text \<open>
  A dipole index above \<^verbatim>\<open>num_dipoles\<close> and a coefficient group above 11 are reported; the
  read returns 0 and leaves its out-parameters, the write changes no register.
\<close>

lemma out_of_range_index_rejected:
  "dipole > num_dipoles h \<Longrightarrow>
     ained_get_dipole_rng h dipole s0 s1 s2 = (0, s0, s1, s2, fprintf_stderr OutOfRangeIndex h)"
  "dipole > num_dipoles h \<Longrightarrow>
     ained_set_dipole_rng h dipole x0 x1 x2 = fprintf_stderr OutOfRangeIndex h"
  "idx > 11 \<Longrightarrow> ained_get_coefficients h idx = (0, fprintf_stderr OutOfRangeIndex h)"
  "idx > 11 \<Longrightarrow> ained_set_coefficients h idx v = fprintf_stderr OutOfRangeIndex h"
  by (simp_all add: ained_get_dipole_rng_def ained_set_dipole_rng_def
      ained_get_coefficients_def ained_set_coefficients_def)

text \<open>
  C7. The dipole guard is \<^verbatim>\<open>dipole > handle->num_dipoles\<close>, so the index \<^verbatim>\<open>num_dipoles\<close>
  itself, one past the last valid dipole, is not rejected: on a device with one dipole
  (valid index 0, its random value register at \<^verbatim>\<open>0x400\<close> reading 9) a write at index 1
  reports nothing and stores the three seeds, and the read at index 1 returns them
  without a diagnostic.
\<close>

theorem dipole_index_at_count_accepted:
  "(let h = blank_handle\<lparr>regs := (regs blank_handle)(1024 := 9), num_dipoles := 1\<rparr>;
        h' = ained_set_dipole_rng h 1 5 6 7
    in stderr_log h' = [] \<and>
       regs h (dipole_reg 1 1) = 0 \<and> regs h' (dipole_reg 1 1) = 5 \<and>
       regs h' (dipole_reg 1 2) = 6 \<and> regs h' (dipole_reg 1 3) = 7 \<and>
       ained_get_dipole_rng h' 1 (Some 0) (Some 0) (Some 0) = (0, Some 5, Some 6, Some 7, h'))"
  by (simp add: Let_def blank_handle_def ained_set_dipole_rng_def ained_get_dipole_rng_def
      dipole_reg_def AINED_REG_DIPOLE_OFFSET_def AINED_REG_DIPOLE_NUM_REG_PD_def)

section \<open>Flipping bits under bypass\<close>

lemma sint_nonneg_below_msb:
  assumes "unat (w::u32) < 2147483648" shows "0 \<le> sint w"
proof -
  have "bit (unat w) 31 = bit w 31" by (simp add: bit_unsigned_iff)
  moreover have "\<not> bit (unat w) 31" using assms by (simp add: bit_iff_odd)
  ultimately have "\<not> bit w (LENGTH(32) - Suc 0)" by simp
  then show ?thesis unfolding bit_last_iff by simp
qed

lemma get_index_unat_wide:
  assumes "unat r < 1024"
  shows "unat (ained_get_index r c) = unat r div 8 * 8 + unat c div 8"
proof -
  have "unat c < 4294967296" using unsigned_less [of c, where ?'a = nat] by simp
  then have "unat c div 8 < 536870912" by simp
  moreover have "unat r div 8 < 128" using assms by simp
  ultimately show ?thesis
    by (simp add: ained_get_index_def bsize_def unat_word_ariths unat_div)
qed

lemma get_index_nonneg:
  assumes "unat r < 1024"
  shows "0 \<le> sint (ained_get_index r c)"
proof -
  have "unat c < 4294967296" using unsigned_less [of c, where ?'a = nat] by simp
  then have "unat c div 8 < 536870912" by simp
  moreover have "unat r div 8 < 128" using assms by simp
  ultimately have "unat (ained_get_index r c) < 2147483648"
    unfolding get_index_unat_wide [OF assms] by linarith
  then show ?thesis by (rule sint_nonneg_below_msb)
qed

lemma unat_plus_of_nat:
  assumes "unat (x::u32) + a < 4294967296"
  shows "unat (x + of_nat a) = unat x + a"
proof -
  have "unat (of_nat a :: u32) = a" using assms by (intro unat_of_nat_small) simp
  then show ?thesis using assms by (simp add: unat_word_ariths)
qed

lemma cell_flip_bit:
  assumes "reg_mask h = - 1"
  shows "cell (ained_flip_isolated_bit h r c) r' c' = (cell h r' c' \<noteq> same_bit r c r' c')"
  by (auto simp: flip_bypassed [OF assms] cell_def same_bit_def bit_simps word_unat_eq_iff
      get_word_index_lt)

lemma same_bit_grid:
  assumes "in_grid r c" "in_grid r' c'"
  shows "same_bit r c r' c' = (r = r' \<and> c = c')"
  using phys_inj [OF assms] by (auto simp: same_bit_def)

lemma ctl_fields:
  assumes "ctl g' = ctl g"
  shows "reg_mask g' = reg_mask g" "regs g' = regs g" "num_dipoles g' = num_dipoles g"
    "index g' = index g" "mask_h g' = mask_h g" "value_h g' = value_h g"
    "stderr_log g' = stderr_log g"
proof -
  have "reg_mask (ctl g') = reg_mask (ctl g)" "regs (ctl g') = regs (ctl g)"
    "num_dipoles (ctl g') = num_dipoles (ctl g)" "index (ctl g') = index (ctl g)"
    "mask_h (ctl g') = mask_h (ctl g)" "value_h (ctl g') = value_h (ctl g)"
    "stderr_log (ctl g') = stderr_log (ctl g)"
    using assms by simp_all
  then show "reg_mask g' = reg_mask g" "regs g' = regs g" "num_dipoles g' = num_dipoles g"
    "index g' = index g" "mask_h g' = mask_h g" "value_h g' = value_h g"
    "stderr_log g' = stderr_log g"
    by (simp_all add: ctl_def)
qed

lemma ctl_flip:
  assumes "reg_mask h = - 1"
  shows "ctl (ained_flip_isolated_bit h r c) = ctl h"
  by (simp add: flip_bypassed [OF assms] ctl_def)

lemma flips_fold:
  assumes "reg_mask g = - 1"
    and "distinct is"
    and "\<And>i j. i \<in> set is \<Longrightarrow> j \<in> set is \<Longrightarrow> same_bit (R i) (C i) (R j) (C j) \<Longrightarrow> i = j"
  shows "ctl (fold (\<lambda>i g. if P i then ained_flip_isolated_bit g (R i) (C i) else g) is g) = ctl g \<and>
         cell (fold (\<lambda>i g. if P i then ained_flip_isolated_bit g (R i) (C i) else g) is g) r c =
           (cell g r c \<noteq> (\<exists>i \<in> set is. P i \<and> same_bit (R i) (C i) r c))"
  using assms
proof (induction "is" arbitrary: g)
  case Nil
  then show ?case by simp
next
  case (Cons i "is")
  let ?step = "\<lambda>i g. if P i then ained_flip_isolated_bit g (R i) (C i) else g"
  let ?g1 = "?step i g"
  have o1: "ctl ?g1 = ctl g" using ctl_flip [OF Cons.prems(1)] by simp
  have m1: "reg_mask ?g1 = - 1" using ctl_fields(1) [OF o1] Cons.prems(1) by simp
  have c1: "cell ?g1 r c = (cell g r c \<noteq> (P i \<and> same_bit (R i) (C i) r c))"
    using cell_flip_bit [OF Cons.prems(1)] by simp
  have d: "distinct is" "i \<notin> set is" using Cons.prems(2) by simp_all
  have inj: "\<And>a b. a \<in> set is \<Longrightarrow> b \<in> set is \<Longrightarrow> same_bit (R a) (C a) (R b) (C b) \<Longrightarrow> a = b"
    using Cons.prems(3) by simp
  note ih = Cons.IH [OF m1 d(1) inj]
  have excl: "\<not> (same_bit (R i) (C i) r c \<and> (\<exists>j \<in> set is. same_bit (R j) (C j) r c))"
  proof
    assume a: "same_bit (R i) (C i) r c \<and> (\<exists>j \<in> set is. same_bit (R j) (C j) r c)"
    then obtain j where j: "j \<in> set is" "same_bit (R j) (C j) r c" by blast
    have "same_bit (R i) (C i) (R j) (C j)" using a j(2) by (simp add: same_bit_def)
    then have "i = j" using Cons.prems(3) [of i j] j(1) by simp
    then show False using d(2) j(1) by simp
  qed
  have f: "fold ?step (i # is) g = fold ?step is ?g1" by simp
  have k1: "ctl (fold ?step is ?g1) = ctl g" using ih o1 by simp
  have k2: "cell (fold ?step is ?g1) r c =
            ((cell g r c \<noteq> (P i \<and> same_bit (R i) (C i) r c))
              \<noteq> (\<exists>j \<in> set is. P j \<and> same_bit (R j) (C j) r c))"
    using ih c1 by simp
  have k3: "(\<exists>j \<in> set (i # is). P j \<and> same_bit (R j) (C j) r c) =
            ((P i \<and> same_bit (R i) (C i) r c) \<or> (\<exists>j \<in> set is. P j \<and> same_bit (R j) (C j) r c))"
    by auto
  show ?case
    unfolding f k3 using k1 k2 excl by blast
qed

section \<open>The snapshot and the restore loop\<close>

lemma region_bounds:
  assumes "region_ok sr sc nr nc"
  shows "unat nr \<le> 128" "unat nc \<le> 64" "unat sr \<le> 128" "unat sc \<le> 64"
  using assms by (simp_all add: region_ok_def)

lemma unat_region_size:
  assumes "region_ok sr sc nr nc"
  shows "unat (nr * nc) = unat nr * unat nc"
proof -
  have "unat nr * unat nc \<le> 128 * 64"
    using region_bounds(1,2) [OF assms] by (rule mult_le_mono)
  then show ?thesis by (simp add: unat_word_ariths)
qed

lemma region_cell:
  assumes "region_ok sr sc nr nc" "a < unat nr" "b < unat nc"
  shows "unat (sr + of_nat a) = unat sr + a" "unat (sc + of_nat b) = unat sc + b"
    "in_grid (sr + of_nat a) (sc + of_nat b)"
    "in_region sr sc nr nc (sr + of_nat a) (sc + of_nat b)"
proof -
  have ra: "unat sr + a < 128" and cb: "unat sc + b < 64"
    using assms by (simp_all add: region_ok_def)
  show 1: "unat (sr + of_nat a) = unat sr + a" using ra by (intro unat_plus_of_nat) simp
  show 2: "unat (sc + of_nat b) = unat sc + b" using cb by (intro unat_plus_of_nat) simp
  show "in_grid (sr + of_nat a) (sc + of_nat b)" using ra cb 1 2 by (simp add: in_grid_def)
  show "in_region sr sc nr nc (sr + of_nat a) (sc + of_nat b)"
    using assms(2,3) 1 2 by (simp add: in_region_def)
qed

lemma in_region_cell:
  assumes "in_region sr sc nr nc r c"
  obtains a b where "a < unat nr" "b < unat nc" "r = sr + of_nat a" "c = sc + of_nat b"
proof -
  let ?a = "unat r - unat sr" and ?b = "unat c - unat sc"
  have a: "?a < unat nr" "unat sr + ?a = unat r" and b: "?b < unat nc" "unat sc + ?b = unat c"
    using assms unfolding in_region_def by linarith+
  have "unat (sr + of_nat ?a) = unat r"
    using unat_plus_of_nat [of sr ?a] a(2) unsigned_less [of r, where ?'a = nat] by simp
  moreover have "unat (sc + of_nat ?b) = unat c"
    using unat_plus_of_nat [of sc ?b] b(2) unsigned_less [of c, where ?'a = nat] by simp
  ultimately have "r = sr + of_nat ?a" "c = sc + of_nat ?b" by (simp_all add: word_unat_eq_iff)
  then show ?thesis using that a(1) b(1) by blast
qed

lemma board_offset:
  assumes "region_ok sr sc nr nc" "a < unat nr" "b < unat nc"
  shows "unat (nc * of_nat a + of_nat b) = unat nc * a + b"
    "unat nc * a + b < unat nr * unat nc"
proof -
  have "unat nc * a + b < unat nc * (a + 1)" using assms(3) by simp
  also have "\<dots> \<le> unat nc * unat nr" using assms(2) by (intro mult_le_mono2) simp
  finally show lt: "unat nc * a + b < unat nr * unat nc" by (simp add: mult.commute)
  have "unat nr * unat nc \<le> 128 * 64"
    using region_bounds(1,2) [OF assms(1)] by (rule mult_le_mono)
  then have s: "unat nc * a + b < 4294967296" using lt by simp
  have "nc * of_nat a + of_nat b = (of_nat (unat nc * a + b) :: u32)" by simp
  then show "unat (nc * of_nat a + of_nat b) = unat nc * a + b"
    using unat_of_nat_small [OF s] by simp
qed

lemma offset_split:
  fixes n a b a' b' :: nat
  assumes "n * a + b = n * a' + b'" "b < n" "b' < n"
  shows "a = a' \<and> b = b'"
proof -
  have "(n * a + b) div n = a" "(n * a' + b') div n = a'" using assms(2,3) by simp_all
  then have "a = a'" using assms(1) by simp
  then show ?thesis using assms(1) by simp
qed

lemma get_board_nth:
  assumes "region_ok sr sc nr nc" "a < unat nr" "b < unat nc"
  shows "ained_get_board h sr sc nr nc ! (unat nc * a + b) =
           ained_get_bit h (sr + of_nat a) (sc + of_nat b)"
proof -
  let ?n = "unat nr * unat nc"
  let ?k = "unat nc * a + b"
  let ?v = "ained_get_bit h (sr + of_nat a) (sc + of_nat b)"
  let ?step = "\<lambda>(row, col) board.
                 board[unat (nc * row + col) := ained_get_bit h (sr + row) (sc + col)]"
  let ?ps = "List.product (map of_nat [0..<unat nr]) (map of_nat [0..<unat nc]) :: (u32 \<times> u32) list"
  have keep: "length (?step p bd) = ?n \<and> (?step p bd ! ?k = bd ! ?k \<or> ?step p bd ! ?k = ?v)"
    if "p \<in> set ?ps" "length bd = ?n" for p bd
  proof -
    obtain x y where xy: "p = (x, y)" by (cases p)
    have "x \<in> of_nat ` {0..<unat nr}" "y \<in> of_nat ` {0..<unat nc}"
      using that(1) xy by simp_all
    then obtain a' b' where "x = of_nat a'" "a' < unat nr" "y = of_nat b'" "b' < unat nc"
      by auto
    then have p: "p = (of_nat a', of_nat b')" "a' < unat nr" "b' < unat nc"
      using xy by simp_all
    note o = board_offset [OF assms(1) p(2,3)]
    show ?thesis
    proof (cases "unat nc * a' + b' = ?k")
      case True
      then have "a' = a \<and> b' = b" using offset_split p(3) assms(3) by blast
      then show ?thesis using that(2) p(1) o board_offset(2) [OF assms] by simp
    next
      case False
      then show ?thesis using that(2) p(1) o by simp
    qed
  qed
  have w: "\<exists>p \<in> set ?ps. \<forall>bd. length bd = ?n \<longrightarrow> ?step p bd ! ?k = ?v"
  proof (intro bexI [of _ "(of_nat a, of_nat b)"] allI impI)
    show "(of_nat a, of_nat b) \<in> set ?ps" using assms(2,3) by simp
    fix bd :: "u32 list" assume "length bd = ?n"
    then show "?step (of_nat a, of_nat b) bd ! ?k = ?v"
      using board_offset [OF assms] by simp
  qed
  have l: "length (replicate (unat (nr * nc)) (0::u32)) = ?n"
    by (simp add: unat_region_size [OF assms(1)])
  show ?thesis
    unfolding ained_get_board_def fold_product
    using fold_writes_nth [of ?ps ?n ?step ?k ?v, OF keep l] w
    by blast
qed

lemma same_bit_refl: "same_bit r c r c"
  by (simp add: same_bit_def)

lemma index_cell:
  assumes "region_ok sr sc nr nc" "i < unat nr * unat nc"
  shows "i div unat nc < unat nr" "i mod unat nc < unat nc"
    "unat nc * (i div unat nc) + i mod unat nc = i"
proof -
  have nc: "0 < unat nc" using assms(2) by (cases "unat nc = 0") simp_all
  show "i div unat nc < unat nr" using assms(2) nc by (simp add: less_mult_imp_div_less)
  show "i mod unat nc < unat nc" using nc by simp
  show "unat nc * (i div unat nc) + i mod unat nc = i" by simp
qed

lemma restore_loop:
  assumes ro: "region_ok sr sc nr nc" and m: "reg_mask g = - 1" and gr: "in_grid r c"
  shows "ctl (fold (\<lambda>i g. if ained_get_board h sr sc nr nc ! i = 1
                         then ained_flip_isolated_bit g
                                (sr + of_nat (i div unat nc)) (sc + of_nat (i mod unat nc))
                         else g) [0..<unat (nr * nc)] g) = ctl g \<and>
         cell (fold (\<lambda>i g. if ained_get_board h sr sc nr nc ! i = 1
                         then ained_flip_isolated_bit g
                                (sr + of_nat (i div unat nc)) (sc + of_nat (i mod unat nc))
                         else g) [0..<unat (nr * nc)] g) r c =
           (cell g r c \<noteq> (in_region sr sc nr nc r c \<and> cell h r c))"
proof -
  let ?R = "\<lambda>i. sr + of_nat (i div unat nc)" and ?C = "\<lambda>i. sc + of_nat (i mod unat nc)"
  let ?P = "\<lambda>i. ained_get_board h sr sc nr nc ! i = 1"
  let ?is = "[0..<unat nr * unat nc]"
  have old: "?P i = cell h (?R i) (?C i)" if "i < unat nr * unat nc" for i
  proof -
    note ic = index_cell [OF ro that]
    have "ained_get_board h sr sc nr nc ! i = ained_get_bit h (?R i) (?C i)"
      using get_board_nth [OF ro ic(1,2), of h] ic(3) by simp
    then show ?thesis by (simp add: get_bit_cell)
  qed
  have inj: "i = j" if "i \<in> set ?is" "j \<in> set ?is" "same_bit (?R i) (?C i) (?R j) (?C j)" for i j
  proof -
    have i: "i < unat nr * unat nc" and j: "j < unat nr * unat nc" using that(1,2) by simp_all
    note ci = index_cell [OF ro i] and cj = index_cell [OF ro j]
    note gi = region_cell [OF ro ci(1,2)] and gj = region_cell [OF ro cj(1,2)]
    have e: "?R i = ?R j \<and> ?C i = ?C j"
      using same_bit_grid [OF gi(3) gj(3)] that(3) by (simp only:)
    have "unat sr + i div unat nc = unat (?R i)" by (rule gi(1) [symmetric])
    also have "\<dots> = unat (?R j)" using e by (simp only:)
    also have "\<dots> = unat sr + j div unat nc" by (rule gj(1))
    finally have d1: "i div unat nc = j div unat nc" by (simp only: add_left_cancel)
    have "unat sc + i mod unat nc = unat (?C i)" by (rule gi(2) [symmetric])
    also have "\<dots> = unat (?C j)" using e by (simp only:)
    also have "\<dots> = unat sc + j mod unat nc" by (rule gj(2))
    finally have d2: "i mod unat nc = j mod unat nc" by (simp only: add_left_cancel)
    have "i = unat nc * (i div unat nc) + i mod unat nc" by (rule ci(3) [symmetric])
    also have "\<dots> = unat nc * (j div unat nc) + j mod unat nc" by (simp only: d1 d2)
    also have "\<dots> = j" by (rule cj(3))
    finally show ?thesis .
  qed
  have ex: "(\<exists>i \<in> set ?is. ?P i \<and> same_bit (?R i) (?C i) r c) =
            (in_region sr sc nr nc r c \<and> cell h r c)"
  proof
    assume "\<exists>i \<in> set ?is. ?P i \<and> same_bit (?R i) (?C i) r c"
    then obtain i where i: "i < unat nr * unat nc" "?P i" "same_bit (?R i) (?C i) r c" by auto
    note ci = index_cell [OF ro i(1)]
    note gi = region_cell [OF ro ci(1,2)]
    have e: "?R i = r \<and> ?C i = c" using same_bit_grid [OF gi(3) gr] i(3) by (simp only:)
    have "in_region sr sc nr nc (?R i) (?C i)" by (rule gi(4))
    then have "in_region sr sc nr nc r c" using e by (simp only:)
    moreover have "cell h (?R i) (?C i)" using old [OF i(1)] i(2) by blast
    then have "cell h r c" using e by (simp only:)
    ultimately show "in_region sr sc nr nc r c \<and> cell h r c" by (rule conjI)
  next
    assume a: "in_region sr sc nr nc r c \<and> cell h r c"
    then obtain a b where ab: "a < unat nr" "b < unat nc" "r = sr + of_nat a" "c = sc + of_nat b"
      using in_region_cell by blast
    let ?i = "unat nc * a + b"
    have i: "?i < unat nr * unat nc" using board_offset(2) [OF ro ab(1,2)] .
    have d: "?i div unat nc = a" "?i mod unat nc = b" using ab(2) by simp_all
    have rc: "?R ?i = r" "?C ?i = c" by (simp_all only: d ab(3,4))
    have "cell h (?R ?i) (?C ?i)" using a by (simp only: rc)
    then have "?P ?i" using old [OF i] by blast
    moreover have "same_bit (?R ?i) (?C ?i) r c" by (simp only: rc same_bit_refl)
    moreover have "?i \<in> set ?is" using i by simp
    ultimately show "\<exists>i \<in> set ?is. ?P i \<and> same_bit (?R i) (?C i) r c" by blast
  qed
  have dist: "distinct ?is" by simp
  show ?thesis
    unfolding unat_region_size [OF ro]
    using flips_fold [of g ?is ?R ?C ?P r c, OF m dist inj] by (simp only: ex)
qed

section \<open>The effect of the cross flip\<close>

lemma guard_bounds:
  assumes ro: "region_ok sr sc nr nc" and nr0: "0 < unat nr" and nc0: "0 < unat nc"
    and gd: "\<not> (row < sr \<or> row > sr + nr - 1 \<or> col < sc \<or> col > sc + nc - 1)"
  shows "unat sr \<le> unat row" "unat row < unat sr + unat nr"
    "unat sc \<le> unat col" "unat col < unat sc + unat nc"
proof -
  have b: "unat sr + unat nr \<le> 128" "unat sc + unat nc \<le> 64"
    using ro by (simp_all add: region_ok_def)
  have r1: "unat (sr + nr) = unat sr + unat nr" using b(1) by (intro unat_add_lem [THEN iffD1]) simp
  have c1: "unat (sc + nc) = unat sc + unat nc" using b(2) by (intro unat_add_lem [THEN iffD1]) simp
  have r2: "unat (sr + nr - 1) = unat sr + unat nr - 1"
    using r1 nr0 by (simp add: unat_minus_one unat_eq_zero [symmetric] del: unat_eq_zero)
  have c2: "unat (sc + nc - 1) = unat sc + unat nc - 1"
    using c1 nc0 by (simp add: unat_minus_one unat_eq_zero [symmetric] del: unat_eq_zero)
  have "sr \<le> row" "row \<le> sr + nr - 1" "sc \<le> col" "col \<le> sc + nc - 1"
    using gd by (simp_all add: not_less)
  then have "unat sr \<le> unat row" "unat row \<le> unat sr + unat nr - 1"
    "unat sc \<le> unat col" "unat col \<le> unat sc + unat nc - 1"
    using r2 c2 by (simp_all add: word_le_nat_alt)
  then show "unat sr \<le> unat row" "unat row < unat sr + unat nr"
    "unat sc \<le> unat col" "unat col < unat sc + unat nc"
    using nr0 nc0 by linarith+
qed

lemma clear_memory_eq:
  "ained_clear_memory h =
     h\<lparr>memory := (\<lambda>k. if k < 128 then 0 else memory h k), reg_mask := 0,
       regs := (regs h)(14 := 0)\<rparr>"
  by (rule ained.equality) (simp_all add: clear_memory_simps)

lemma commit_target:
  assumes idle: "tx_idle h" and tr: "unat tr < 1024" and gr: "in_grid r c"
  shows "cell (ained_commit (ained_set_bit (ained_clear_memory h) tr tc 1)) r c =
           same_bit tr tc r c"
    "ctl (ained_commit (ained_set_bit (ained_clear_memory h) tr tc 1)) =
       ctl (h\<lparr>reg_mask := push_bit (unat (ained_get_word_index tr tc)) 1,
               regs := (regs h)(14 := 0), index := - 1, mask_h := 0, value_h := 0\<rparr>)"
proof -
  let ?h1 = "ained_clear_memory h"
  let ?h2 = "ained_set_bit ?h1 tr tc 1"
  have a1: "sint (index ?h1) < 0 \<or> index ?h1 = ained_get_index tr tc"
    using idle by (simp add: tx_idle_def clear_memory_simps)
  note e2 = set_bit_accept [OF a1, of 1]
  have p: "0 \<le> sint (index ?h2)" unfolding e2 using get_index_nonneg [OF tr] by simp
  note e3 = commit_pending [OF p]
  have m0: "mask_h h = 0" using idle by (simp add: tx_idle_def)
  have w: "unat (ained_get_index r c) < 128" by (rule get_index_lt [OF gr])
  have lt: "unat (ained_get_word_index tr tc) < 64" "unat (ained_get_word_index r c) < 64"
    by (rule get_word_index_lt)+
  show "cell (ained_commit ?h2) r c = same_bit tr tc r c"
    unfolding e3 unfolding e2
    using w lt
    by (auto simp: m0 cell_def same_bit_def clear_memory_simps bit_simps word_unat_eq_iff)
  show "ctl (ained_commit ?h2) =
       ctl (h\<lparr>reg_mask := push_bit (unat (ained_get_word_index tr tc)) 1,
               regs := (regs h)(14 := 0), index := - 1, mask_h := 0, value_h := 0\<rparr>)"
    unfolding e3 unfolding e2
    by (simp add: m0 ctl_def clear_memory_eq)
qed

lemma ctl_set_bypass: "ctl g = ctl g' \<Longrightarrow> ctl (ained_set_bypass g e) = ctl (ained_set_bypass g' e)"
proof -
  assume a: "ctl g = ctl g'"
  have "ctl (ained_set_bypass g e) = ained_set_bypass (ctl g) e"
    by (simp add: ctl_def ained_set_bypass_def Let_def) 
  moreover have "ctl (ained_set_bypass g' e) = ained_set_bypass (ctl g') e"
    by (simp add: ctl_def ained_set_bypass_def Let_def)
  ultimately show ?thesis using a by simp
qed

lemma cell_set_bypass [simp]: "cell (ained_set_bypass g e) r c = cell g r c"
  by (simp add: cell_def)

lemma cond_flip:
  assumes "reg_mask g = - 1"
  shows "ctl (if b then ained_flip_isolated_bit g r' c' else g) = ctl g"
    "reg_mask (if b then ained_flip_isolated_bit g r' c' else g) = - 1"
    "cell (if b then ained_flip_isolated_bit g r' c' else g) r c =
       (cell g r c \<noteq> (b \<and> same_bit r' c' r c))"
  using assms ctl_flip [OF assms] cell_flip_bit [OF assms] ctl_fields(1) [OF ctl_flip [OF assms]]
  by simp_all

lemma flip_lights_effect:
  assumes idle: "tx_idle h" and ro: "region_ok sr sc nr nc"
    and nr0: "0 < unat nr" and nc0: "0 < unat nc"
    and gd: "\<not> (row < sr \<or> row > sr + nr - 1 \<or> col < sc \<or> col > sc + nc - 1)"
    and gr: "in_grid r c"
  shows "cell (ained_flip_lights h sr sc nr nc row col) r c =
           ((in_region sr sc nr nc r c \<and> cell h r c) \<noteq> cross_delta sr sc nr nc row col r c)"
    and "tx_idle (ained_flip_lights h sr sc nr nc row col)"
proof -
  note gb = guard_bounds [OF ro nr0 nc0 gd]
  have b: "unat sr + unat nr \<le> 128" using ro by (simp add: region_ok_def)
  have "unat sr + unat row < 4294967296" using gb(2) b by simp
  then have "unat (sr + row) = unat sr + unat row" by (intro unat_add_lem [THEN iffD1]) simp
  then have tr: "unat (sr + row) < 1024" using gb(2) b by simp
  define old where "old = ained_get_board h sr sc nr nc"
  define h3 where "h3 = ained_commit (ained_set_bit (ained_clear_memory h) (sr + row) (sc + col) 1)"
  define h4 where "h4 = ained_set_bypass h3 True"
  define h5 where "h5 = fold (\<lambda>i g. if old ! i = 1
                         then ained_flip_isolated_bit g
                                (sr + of_nat (i div unat nc)) (sc + of_nat (i mod unat nc))
                         else g) [0..<unat (nr * nc)] h4"
  define h6 where "h6 = (if row > 0 then ained_flip_isolated_bit h5 (sr + row - 1) (sc + col) else h5)"
  define h7 where "h7 = (if row < nr - 1 then ained_flip_isolated_bit h6 (sr + row + 1) (sc + col) else h6)"
  define h8 where "h8 = (if col > 0 then ained_flip_isolated_bit h7 (sr + row) (sc + col - 1) else h7)"
  define h9 where "h9 = (if col < nc - 1 then ained_flip_isolated_bit h8 (sr + row) (sc + col + 1) else h8)"
  have fl: "ained_flip_lights h sr sc nr nc row col = ained_set_bypass h9 False"
    unfolding ained_flip_lights_def Let_def h9_def h8_def h7_def h6_def h5_def h4_def h3_def old_def
    using gd by simp
  note ct = commit_target [OF idle tr gr, of "sc + col"]
  have c3: "cell h3 r c = same_bit (sr + row) (sc + col) r c"
    unfolding h3_def by (rule ct(1))
  have i3: "index h3 = - 1" "mask_h h3 = 0"
    unfolding h3_def using ctl_fields(4,5) [OF ct(2)] by simp_all
  have m4: "reg_mask h4 = - 1" by (simp add: h4_def)
  have c4: "cell h4 r c = cell h3 r c" by (simp add: h4_def)
  have k4: "index h4 = - 1" "mask_h h4 = 0" using i3 by (simp_all add: h4_def)
  have rl: "ctl h5 = ctl h4 \<and>
            cell h5 r c = (cell h4 r c \<noteq> (in_region sr sc nr nc r c \<and> cell h r c))"
    unfolding h5_def old_def by (rule restore_loop [OF ro m4 gr])
  have k5: "ctl h5 = ctl h4" using rl by simp
  have c5: "cell h5 r c = (cell h4 r c \<noteq> (in_region sr sc nr nc r c \<and> cell h r c))"
    using rl by simp
  have m5: "reg_mask h5 = - 1" using ctl_fields(1) [OF k5] m4 by simp
  have s6: "ctl h6 = ctl h5" "reg_mask h6 = - 1"
    "cell h6 r c = (cell h5 r c \<noteq> (row > 0 \<and> same_bit (sr + row - 1) (sc + col) r c))"
    unfolding h6_def by (rule cond_flip [OF m5])+
  have s7: "ctl h7 = ctl h6" "reg_mask h7 = - 1"
    "cell h7 r c = (cell h6 r c \<noteq> (row < nr - 1 \<and> same_bit (sr + row + 1) (sc + col) r c))"
    unfolding h7_def by (rule cond_flip [OF s6(2)])+
  have s8: "ctl h8 = ctl h7" "reg_mask h8 = - 1"
    "cell h8 r c = (cell h7 r c \<noteq> (col > 0 \<and> same_bit (sr + row) (sc + col - 1) r c))"
    unfolding h8_def by (rule cond_flip [OF s7(2)])+
  have s9: "ctl h9 = ctl h8" "reg_mask h9 = - 1"
    "cell h9 r c = (cell h8 r c \<noteq> (col < nc - 1 \<and> same_bit (sr + row) (sc + col + 1) r c))"
    unfolding h9_def by (rule cond_flip [OF s8(2)])+
  have k9: "ctl h9 = ctl h4" using s9(1) s8(1) s7(1) s6(1) k5 by simp
  have "cell (ained_set_bypass h9 False) r c = cell h9 r c" by simp
  then show "cell (ained_flip_lights h sr sc nr nc row col) r c =
           ((in_region sr sc nr nc r c \<and> cell h r c) \<noteq> cross_delta sr sc nr nc row col r c)"
    unfolding fl cross_delta_def s9(3) s8(3) s7(3) s6(3) c5 c4 c3 by blast
  have "index h9 = - 1" "mask_h h9 = 0" using ctl_fields(4,5) [OF k9] k4 by simp_all
  then show "tx_idle (ained_flip_lights h sr sc nr nc row col)"
    unfolding fl by (simp add: tx_idle_def)
qed

lemma in_region_nonempty:
  assumes "region_ok sr sc nr nc" "in_region sr sc nr nc r c"
  shows "0 < unat nr" "0 < unat nc" "in_grid r c"
  using assms unfolding region_ok_def in_region_def in_grid_def by linarith+

section \<open>Claims about the cross flip\<close>

text \<open>
  C2. With no transaction pending, for every sub-region inside the grid and every pair of
  target arguments, two calls of \<^verbatim>\<open>ained_flip_lights\<close> in succession with the same arguments
  leave every cell of the sub-region with the value it had before the first call.
\<close>

theorem flip_lights_twice_restores:
  assumes "tx_idle h" "region_ok sr sc nr nc" "in_region sr sc nr nc r c"
  shows "ained_get_bit
           (ained_flip_lights (ained_flip_lights h sr sc nr nc row col) sr sc nr nc row col) r c =
         ained_get_bit h r c"
proof (cases "row < sr \<or> row > sr + nr - 1 \<or> col < sc \<or> col > sc + nc - 1")
  case True
  then show ?thesis by (simp add: ained_flip_lights_def)
next
  case False
  note ne = in_region_nonempty [OF assms(2,3)]
  let ?h1 = "ained_flip_lights h sr sc nr nc row col"
  note e1 = flip_lights_effect [OF assms(1,2) ne(1,2) False ne(3)]
  note e2 = flip_lights_effect [OF e1(2) assms(2) ne(1,2) False ne(3)]
  have "cell (ained_flip_lights ?h1 sr sc nr nc row col) r c = cell h r c"
    unfolding e2(1) e1(1) using assms(3) by blast
  then show ?thesis by (simp add: get_bit_cell)
qed

text \<open>Cell (1, 2) of a 3 x 3 board after toggling its centre twice.\<close>

theorem flip_lights_twice_restores_witness:
  "tx_idle blank_handle \<and> region_ok 0 0 3 3 \<and> in_region 0 0 3 3 1 2 \<and>
   ained_get_bit
     (ained_flip_lights (ained_flip_lights blank_handle 0 0 3 3 1 1) 0 0 3 3 1 1) 1 2 =
   ained_get_bit blank_handle 1 2"
proof -
  have i: "tx_idle blank_handle" by (simp add: tx_idle_def blank_handle_def)
  have r: "region_ok 0 0 3 3" by (simp add: region_ok_def)
  have c: "in_region 0 0 3 3 1 2" by (simp add: in_region_def)
  show ?thesis using i r c flip_lights_twice_restores [OF i r c, of 1 1] by simp
qed

section \<open>The cross at the origin\<close>

lemma neighbour_above:
  assumes "in_grid row col" "in_grid r c"
  shows "(row > 0 \<and> same_bit (row - 1) col r c) = (unat r + 1 = unat row \<and> unat c = unat col)"
proof (cases "row > 0")
  case True
  then have nz: "row \<noteq> 0" by auto
  have u: "unat (row - 1) = unat row - 1" using nz by (rule unat_minus_one)
  have p: "0 < unat row" using nz by (simp add: unat_gt_0)
  have g: "in_grid (row - 1) col" using assms(1) u unfolding in_grid_def by linarith
  have "same_bit (row - 1) col r c = (unat (row - 1) = unat r \<and> unat col = unat c)"
    unfolding same_bit_grid [OF g assms(2)] by (simp add: word_unat_eq_iff)
  then show ?thesis using True u p by auto
next
  case False
  then have "row = 0" by (simp add: word_neq_0_conv [symmetric])
  then show ?thesis by simp
qed

lemma neighbour_below:
  assumes "in_grid row col" "in_grid r c" "unat r < unat n" "unat row < unat n" "unat n \<le> 128"
  shows "(row < n - 1 \<and> same_bit (row + 1) col r c) = (unat r = unat row + 1 \<and> unat c = unat col)"
proof -
  have n0: "n \<noteq> 0"
  proof
    assume "n = 0"
    then have "unat n = 0" by simp
    then show False using assms(3) by linarith
  qed
  have un: "unat (n - 1) = unat n - 1" using n0 by (rule unat_minus_one)
  have "(row < n - 1) = (unat row < unat (n - 1))" by (rule word_less_nat_alt)
  also have "\<dots> = (unat row + 1 < unat n)" unfolding un using assms(4) by linarith
  finally have lt: "(row < n - 1) = (unat row + 1 < unat n)" .
  have rb: "unat row < 128" using assms(1) unfolding in_grid_def by linarith
  have "unat (row + of_nat 1) = unat row + 1" using rb by (intro unat_plus_of_nat) linarith
  then have u: "unat (row + 1) = unat row + 1" by (simp only: of_nat_1)
  show ?thesis
  proof (cases "unat row + 1 < 128")
    case True
    then have g: "in_grid (row + 1) col" using assms(1) unfolding in_grid_def u by linarith
    have "same_bit (row + 1) col r c = (row + 1 = r \<and> col = c)"
      by (rule same_bit_grid [OF g assms(2)])
    also have "\<dots> = (unat row + 1 = unat r \<and> unat col = unat c)"
      unfolding word_unat_eq_iff u ..
    finally show ?thesis unfolding lt using assms(3) by linarith
  next
    case False
    then have "\<not> unat row + 1 < unat n" "unat r \<noteq> unat row + 1"
      using assms(2,3,5) unfolding in_grid_def by linarith+
    then show ?thesis unfolding lt by blast
  qed
qed

lemma neighbour_left:
  assumes "in_grid row col" "in_grid r c"
  shows "(col > 0 \<and> same_bit row (col - 1) r c) = (unat c + 1 = unat col \<and> unat r = unat row)"
proof (cases "col > 0")
  case True
  then have nz: "col \<noteq> 0" by auto
  have u: "unat (col - 1) = unat col - 1" using nz by (rule unat_minus_one)
  have p: "0 < unat col" using nz by (simp add: unat_gt_0)
  have g: "in_grid row (col - 1)" using assms(1) u unfolding in_grid_def by linarith
  have "same_bit row (col - 1) r c = (unat row = unat r \<and> unat (col - 1) = unat c)"
    unfolding same_bit_grid [OF g assms(2)] by (simp add: word_unat_eq_iff)
  then show ?thesis using True u p by auto
next
  case False
  then have "col = 0" by (simp add: word_neq_0_conv [symmetric])
  then show ?thesis by simp
qed

lemma neighbour_right:
  assumes "in_grid row col" "in_grid r c" "unat c < unat n" "unat col < unat n" "unat n \<le> 64"
  shows "(col < n - 1 \<and> same_bit row (col + 1) r c) = (unat c = unat col + 1 \<and> unat r = unat row)"
proof -
  have n0: "n \<noteq> 0"
  proof
    assume "n = 0"
    then have "unat n = 0" by simp
    then show False using assms(3) by linarith
  qed
  have un: "unat (n - 1) = unat n - 1" using n0 by (rule unat_minus_one)
  have "(col < n - 1) = (unat col < unat (n - 1))" by (rule word_less_nat_alt)
  also have "\<dots> = (unat col + 1 < unat n)" unfolding un using assms(4) by linarith
  finally have lt: "(col < n - 1) = (unat col + 1 < unat n)" .
  have cb: "unat col < 64" using assms(1) unfolding in_grid_def by linarith
  have "unat (col + of_nat 1) = unat col + 1" using cb by (intro unat_plus_of_nat) linarith
  then have u: "unat (col + 1) = unat col + 1" by (simp only: of_nat_1)
  show ?thesis
  proof (cases "unat col + 1 < 64")
    case True
    then have g: "in_grid row (col + 1)" using assms(1) unfolding in_grid_def u by linarith
    have "same_bit row (col + 1) r c = (row = r \<and> col + 1 = c)"
      by (rule same_bit_grid [OF g assms(2)])
    also have "\<dots> = (unat row = unat r \<and> unat col + 1 = unat c)"
      unfolding word_unat_eq_iff u ..
    finally show ?thesis unfolding lt using assms(3) by linarith
  next
    case False
    then have "\<not> unat col + 1 < unat n" "unat c \<noteq> unat col + 1"
      using assms(2,3,5) unfolding in_grid_def by linarith+
    then show ?thesis unfolding lt by blast
  qed
qed

text \<open>
  For a sub-region that starts at the origin the guard and the body of
  \<^verbatim>\<open>ained_flip_lights\<close> agree on what \<open>(row, col)\<close> means. There, with no transaction pending,
  a call on a cell of the sub-region complements that cell and its orthogonal neighbours
  inside the sub-region, and every other cell of the sub-region keeps its value.
\<close>

lemma flip_lights_cross_at_origin:
  assumes idle: "tx_idle h" and ro: "region_ok 0 0 nr nc"
    and tg: "in_region 0 0 nr nc row col" and cl: "in_region 0 0 nr nc r c"
  shows "ained_get_bit (ained_flip_lights h 0 0 nr nc row col) r c =
           (if on_cross row col r c then 1 - ained_get_bit h r c else ained_get_bit h r c)"
proof -
  note nt = in_region_nonempty [OF ro tg] and nc' = in_region_nonempty [OF ro cl]
  have b: "unat row < unat nr" "unat col < unat nc" "unat r < unat nr" "unat c < unat nc"
    "unat nr \<le> 128" "unat nc \<le> 64"
    using tg cl ro unfolding in_region_def region_ok_def by simp_all
  have n0: "nr \<noteq> 0" "nc \<noteq> 0" using nt(1,2) by auto
  have un: "unat (nr - 1) = unat nr - 1" "unat (nc - 1) = unat nc - 1"
    using n0 by (simp_all add: unat_minus_one)
  have "row \<le> nr - 1" "col \<le> nc - 1"
    unfolding word_le_nat_alt un using b(1,2) by linarith+
  then have gd: "\<not> (row < 0 \<or> row > 0 + nr - 1 \<or> col < 0 \<or> col > 0 + nc - 1)"
    by (simp add: not_less)
  note e = flip_lights_effect [OF idle ro nt(1,2) gd nc'(3)]
  have t: "same_bit row col r c = (unat r = unat row \<and> unat c = unat col)"
    unfolding same_bit_grid [OF nt(3) nc'(3)] word_unat_eq_iff by auto
  note na = neighbour_above [OF nt(3) nc'(3)]
  note nb = neighbour_below [OF nt(3) nc'(3) b(3) b(1) b(5)]
  note nl = neighbour_left [OF nt(3) nc'(3)]
  note nr' = neighbour_right [OF nt(3) nc'(3) b(4) b(2) b(6)]
  have "cross_delta 0 0 nr nc row col r c = on_cross row col r c"
    unfolding cross_delta_def on_cross_def add_0 t na nb nl nr' by linarith
  then have "cell (ained_flip_lights h 0 0 nr nc row col) r c =
             (cell h r c \<noteq> on_cross row col r c)"
    using e(1) cl by simp
  then show ?thesis by (simp add: get_bit_cell)
qed

text \<open>
  C1. For a sub-region that does not start at the origin the entry guard reads \<open>(row, col)\<close>
  as absolute coordinates (\<open>start_row \<le> row \<le> start_row + num_row - 1\<close>) while the body
  adds \<open>start_row\<close> and \<open>start_col\<close> to them. On the all-zero grid and the sub-region of
  rows 1..3 in column 0: the call with \<open>row = 0\<close> (the first row of the sub-region, counted
  from its start) is rejected and toggles nothing; the call with \<open>row = 1\<close> (the cell
  \<open>(1, 0)\<close> in absolute coordinates) commits the cell \<open>(2, 0)\<close> and flips \<open>(1, 0)\<close> and
  \<open>(3, 0)\<close>, so that \<open>(3, 0)\<close>, which is not next to \<open>(1, 0)\<close>, changes.
\<close>

theorem flip_lights_offset_region:
  "ained_flip_lights blank_handle 1 0 3 1 0 0 = blank_handle \<and>
   ained_get_bit blank_handle 3 0 = 0 \<and>
   ained_get_bit (ained_flip_lights blank_handle 1 0 3 1 1 0) 1 0 = 1 \<and>
   ained_get_bit (ained_flip_lights blank_handle 1 0 3 1 1 0) 2 0 = 1 \<and>
   ained_get_bit (ained_flip_lights blank_handle 1 0 3 1 1 0) 3 0 = 1"
proof -
  have i: "tx_idle blank_handle" by (simp add: tx_idle_def blank_handle_def)
  have r: "region_ok 1 0 3 1" by (simp add: region_ok_def)
  have n: "0 < unat (3::u32)" "0 < unat (1::u32)" by simp_all
  have g: "\<not> ((1::u32) < 1 \<or> (1::u32) > 1 + 3 - 1 \<or> (0::u32) < 0 \<or> (0::u32) > 0 + 1 - 1)"
    by simp
  have z: "cell blank_handle r c = False" for r c
    by (simp add: cell_def blank_handle_def)
  have c: "in_grid 1 0" "in_grid 2 0" "in_grid 3 0" by (simp_all add: in_grid_def)
  have d: "cross_delta 1 0 3 1 1 0 1 0" "cross_delta 1 0 3 1 1 0 2 0" "cross_delta 1 0 3 1 1 0 3 0"
    by (simp_all add: cross_delta_def same_bit_def ained_get_index_def
        ained_get_word_index_def bsize_def)
  have "cell (ained_flip_lights blank_handle 1 0 3 1 1 0) 1 0"
    "cell (ained_flip_lights blank_handle 1 0 3 1 1 0) 2 0"
    "cell (ained_flip_lights blank_handle 1 0 3 1 1 0) 3 0"
    using flip_lights_effect(1) [OF i r n g c(1)] flip_lights_effect(1) [OF i r n g c(2)]
      flip_lights_effect(1) [OF i r n g c(3)] d
    by (simp_all add: z)
  moreover have "ained_flip_lights blank_handle 1 0 3 1 0 0 = blank_handle"
    by (simp add: ained_flip_lights_def)
  ultimately show ?thesis by (simp add: get_bit_cell z)
qed

end
